theory Spec2Isabelle
  imports Complex_Main "HOL-Library.Sublist"
begin

section \<open>Strings\<close>

text \<open>
  A Python \<open>str\<close> is modelled as a \<open>string\<close> whose characters stand for the code
  points below 256.  The character classes below are Python's, restricted to that range.
\<close>

definition is_hspace :: "char \<Rightarrow> bool" where
  \<comment> \<open>the regular-expression class \<open>[ \t\r\f\v]\<close>\<close>
  "is_hspace c = (c = CHR '' '' \<or> c = CHR 0x09 \<or> c = CHR 0x0D \<or> c = CHR 0x0C \<or> c = CHR 0x0B)"

definition is_nl :: "char \<Rightarrow> bool" where
  "is_nl c = (c = CHR 0x0A)"

definition py_isspace :: "char \<Rightarrow> bool" where
  \<comment> \<open>the characters \<open>str.strip()\<close> removes: \<open>str.isspace\<close> on code points below 256\<close>
  "py_isspace c = (let n = (of_char c :: nat) in
     (9 \<le> n \<and> n \<le> 13) \<or> (28 \<le> n \<and> n \<le> 32) \<or> n = 133 \<or> n = 160)"

definition py_strip :: "string \<Rightarrow> string" where
  \<comment> \<open>\<open>s.strip()\<close>\<close>
  "py_strip s = rev (dropWhile py_isspace (rev (dropWhile py_isspace s)))"

definition py_strip_chars :: "(char \<Rightarrow> bool) \<Rightarrow> string \<Rightarrow> string" where
  \<comment> \<open>\<open>s.strip(chars)\<close>, the set of characters given as a predicate\<close>
  "py_strip_chars P s = rev (dropWhile P (rev (dropWhile P s)))"

definition lower_char :: "char \<Rightarrow> char" where
  \<comment> \<open>\<open>str.lower\<close> on one code point below 256\<close>
  "lower_char c = (let n = (of_char c :: nat) in
     if (65 \<le> n \<and> n \<le> 90) \<or> (192 \<le> n \<and> n \<le> 222 \<and> n \<noteq> 215) then char_of (n + 32) else c)"

definition py_lower :: "string \<Rightarrow> string" where
  "py_lower s = map lower_char s"

fun py_join :: "string \<Rightarrow> string list \<Rightarrow> string" where
  \<comment> \<open>\<open>sep.join(xs)\<close>\<close>
  "py_join sep [] = []"
| "py_join sep [x] = x"
| "py_join sep (x # y # ys) = x @ sep @ py_join sep (y # ys)"

definition endswith :: "string \<Rightarrow> string \<Rightarrow> bool" where
  \<comment> \<open>\<open>s.endswith(t)\<close>\<close>
  "endswith s t = (length t \<le> length s \<and> drop (length s - length t) s = t)"

definition startswith :: "string \<Rightarrow> string \<Rightarrow> bool" where
  \<comment> \<open>\<open>s.startswith(t)\<close>\<close>
  "startswith s t = (take (length t) s = t)"

section \<open>Whitespace normalization\<close>

text \<open>
  \<^verbatim>\<open>
  def normalize_ws(s: str) -> str:
      s = re.sub(r"[ \t\r\f\v]+", " ", s)
      s = re.sub(r"\n{3,}", "\n\n", s)
      return s.strip()
  \<close>
  \<open>re.sub\<close> replaces the leftmost, longest matches: each maximal run of horizontal
  whitespace becomes one space, each maximal run of three or more newlines becomes two.
\<close>

function sub_hspace :: "string \<Rightarrow> string" where
  "sub_hspace [] = []"
| "sub_hspace (c # cs) =
     (if is_hspace c then CHR '' '' # sub_hspace (dropWhile is_hspace cs)
      else c # sub_hspace cs)"
  by pat_completeness auto
termination
  by (relation "measure length") (auto simp: less_Suc_eq_le length_dropWhile_le)

function sub_newlines :: "string \<Rightarrow> string" where
  "sub_newlines [] = []"
| "sub_newlines (c # cs) =
     (if is_nl c then
        (if 2 \<le> length (takeWhile is_nl cs)
         then CHR 0x0A # CHR 0x0A # sub_newlines (dropWhile is_nl cs)
         else c # takeWhile is_nl cs @ sub_newlines (dropWhile is_nl cs))
      else c # sub_newlines cs)"
  by pat_completeness auto
termination
  by (relation "measure length") (auto simp: less_Suc_eq_le length_dropWhile_le)

definition normalize_ws :: "string \<Rightarrow> string" where
  "normalize_ws s = py_strip (sub_newlines (sub_hspace s))"

section \<open>Dates in slugs\<close>

text \<open>
  \<^verbatim>\<open>
  def parse_date_from_slug(slug: str) -> Optional[str]:
      m = re.search(r"(\d{2})(\d{2})(\d{2})", slug)
      if not m: return None
      dd, mm, yy = map(int, m.groups())
      year = 2000 + yy if yy < 70 else 1900 + yy
      try:
          return date(year, mm, dd).isoformat()
      except ValueError: return None
  \<close>
  Among the code points below 256 the class \<open>\d\<close> is \<open>0\<close> to \<open>9\<close>.
\<close>

definition is_digit :: "char \<Rightarrow> bool" where
  "is_digit c = (let n = (of_char c :: nat) in 48 \<le> n \<and> n \<le> 57)"

definition digit_val :: "char \<Rightarrow> int" where
  "digit_val c = int (of_char c) - 48"

definition int_of_digits :: "string \<Rightarrow> int" where
  \<comment> \<open>\<open>int(s)\<close> on a string of decimal digits\<close>
  "int_of_digits s = foldl (\<lambda>a c. 10 * a + digit_val c) 0 s"

fun search_ddmmyy :: "string \<Rightarrow> (string \<times> string \<times> string) option" where
  \<comment> \<open>\<open>re.search\<close> for six digits in a row: the leftmost position, the three groups\<close>
  "search_ddmmyy [] = None"
| "search_ddmmyy (c # cs) =
     (if 6 \<le> length (c # cs) \<and> list_all is_digit (take 6 (c # cs))
      then Some (take 2 (c # cs), take 2 (drop 2 (c # cs)), take 2 (drop 4 (c # cs)))
      else search_ddmmyy cs)"

definition is_leap :: "int \<Rightarrow> bool" where
  "is_leap y = (y mod 4 = 0 \<and> (y mod 100 \<noteq> 0 \<or> y mod 400 = 0))"

definition days_in_month :: "int \<Rightarrow> int \<Rightarrow> int" where
  "days_in_month y m =
     (if m = 2 then (if is_leap y then 29 else 28)
      else if m = 4 \<or> m = 6 \<or> m = 9 \<or> m = 11 then 30 else 31)"

definition date_new :: "int \<Rightarrow> int \<Rightarrow> int \<Rightarrow> (int \<times> int \<times> int) option" where
  \<comment> \<open>\<open>datetime.date(year, month, day)\<close>; \<open>None\<close> is its \<open>ValueError\<close>\<close>
  "date_new y m d =
     (if 1 \<le> y \<and> y \<le> 9999 \<and> 1 \<le> m \<and> m \<le> 12 \<and> 1 \<le> d \<and> d \<le> days_in_month y m
      then Some (y, m, d) else None)"

definition digit_char :: "int \<Rightarrow> char" where
  \<comment> \<open>the decimal digit \<open>d\<close>, for \<open>d\<close> from 0 to 9\<close>
  "digit_char d = ''0123456789'' ! nat d"

definition pad2 :: "int \<Rightarrow> string" where
  \<comment> \<open>\<open>"%02d"\<close> on a number from 0 to 99\<close>
  "pad2 n = [digit_char (n div 10 mod 10), digit_char (n mod 10)]"

definition pad4 :: "int \<Rightarrow> string" where
  \<comment> \<open>\<open>"%04d"\<close> on a number from 0 to 9999\<close>
  "pad4 n = [digit_char (n div 1000 mod 10), digit_char (n div 100 mod 10),
             digit_char (n div 10 mod 10), digit_char (n mod 10)]"

definition isoformat :: "int \<times> int \<times> int \<Rightarrow> string" where
  \<comment> \<open>\<open>date.isoformat()\<close>: \<open>"%04d-%02d-%02d"\<close>\<close>
  "isoformat dt = (case dt of (y, m, d) \<Rightarrow> pad4 y @ ''-'' @ pad2 m @ ''-'' @ pad2 d)"

definition parse_date_from_slug :: "string \<Rightarrow> string option" where
  "parse_date_from_slug slug =
     (case search_ddmmyy slug of
        None \<Rightarrow> None
      | Some (d, m, y) \<Rightarrow>
          (let dd = int_of_digits d; mm = int_of_digits m; yy = int_of_digits y;
               year = (if yy < 70 then 2000 + yy else 1900 + yy)
           in case date_new year mm dd of
                None \<Rightarrow> None
              | Some dt \<Rightarrow> Some (isoformat dt)))"

section \<open>Frontier and admission\<close>

text \<open>
  \<open>urlparse\<close> and \<open>urldefrag\<close> are \<open>urllib\<close>'s, the allow-pattern is a compiled regular
  expression and the robots policy is \<open>urllib.robotparser\<close>'s: the crawl takes them as
  given, and so does the model, as fields of the environment of one run.  Of a parsed URL
  the code reads the scheme, the network location and the path.
\<close>

record url_parts =
  url_scheme :: string
  url_netloc :: string
  url_path :: string

record crawl_env =
  urlparse :: "string \<Rightarrow> url_parts"
  urldefrag :: "string \<Rightarrow> string"  \<comment> \<open>\<open>urldefrag(u)[0]\<close>\<close>
  allowed_re_match :: "string \<Rightarrow> bool"  \<comment> \<open>whether \<open>allowed_re.match(p)\<close> matches\<close>
  rp :: "(string \<Rightarrow> string \<Rightarrow> bool) option"  \<comment> \<open>\<open>rp.can_fetch(agent, u)\<close>, when there is a policy\<close>
  user_agent :: string
  start_url :: string

text \<open>
  \<^verbatim>\<open>
  def same_site(a: str, b: str) -> bool:
      return urlparse(a).netloc.lower() == urlparse(b).netloc.lower()

  def is_http_url(u: str) -> bool:
      return urlparse(u).scheme in ("http", "https")
  \<close>
\<close>

definition same_site :: "crawl_env \<Rightarrow> string \<Rightarrow> string \<Rightarrow> bool" where
  "same_site env a b =
     (py_lower (url_netloc (urlparse env a)) = py_lower (url_netloc (urlparse env b)))"

definition is_http_url :: "crawl_env \<Rightarrow> string \<Rightarrow> bool" where
  "is_http_url env u =
     (url_scheme (urlparse env u) = ''http'' \<or> url_scheme (urlparse env u) = ''https'')"

text \<open>
  \<^verbatim>\<open>
  def allowed(u: str) -> bool:
      if not is_http_url(u) or not same_site(u, start_url): return False
      if not allowed_re.match(urlparse(u).path): return False
      if rp and not rp.can_fetch(user_agent, u): return False
      return True
  \<close>
  \<open>allowed_run\<close> returns, with the answer, the checks that were evaluated, in the order
  of their evaluation: \<open>or\<close> and \<open>and\<close> evaluate their right operand only when the left
  one does not decide, and a \<open>return\<close> ends the function.
\<close>

datatype admission_check = SchemeCheck | SameHostCheck | PathCheck | RobotsCheck

definition allowed_run :: "crawl_env \<Rightarrow> string \<Rightarrow> admission_check list \<times> bool" where
  "allowed_run env u =
     (if \<not> is_http_url env u then ([SchemeCheck], False)
      else if \<not> same_site env u (start_url env) then ([SchemeCheck, SameHostCheck], False)
      else if \<not> allowed_re_match env (url_path (urlparse env u))
        then ([SchemeCheck, SameHostCheck, PathCheck], False)
      else (case rp env of
              None \<Rightarrow> ([SchemeCheck, SameHostCheck, PathCheck], True)
            | Some can_fetch \<Rightarrow>
                if \<not> can_fetch (user_agent env) u
                then ([SchemeCheck, SameHostCheck, PathCheck, RobotsCheck], False)
                else ([SchemeCheck, SameHostCheck, PathCheck, RobotsCheck], True)))"

definition allowed :: "crawl_env \<Rightarrow> string \<Rightarrow> bool" where
  "allowed env u = snd (allowed_run env u)"

text \<open>
  \<^verbatim>\<open>
  queue, seen, records = deque(), set(), []
  def enqueue(u: str):
      u = urldefrag(u)[0]
      if u and u not in seen and allowed(u):
          seen.add(u)
          queue.append(u)
  \<close>
\<close>

record frontier =
  queue :: "string list"
  seen :: "string set"

definition frontier_init :: frontier where
  "frontier_init = \<lparr>queue = [], seen = {}\<rparr>"

definition enqueue :: "crawl_env \<Rightarrow> string \<Rightarrow> 'a frontier_scheme \<Rightarrow> 'a frontier_scheme" where
  "enqueue env u st =
     (let d = urldefrag env u
      in if d \<noteq> [] \<and> d \<notin> seen st \<and> allowed env d
         then st\<lparr>seen := insert d (seen st), queue := queue st @ [d]\<rparr>
         else st)"

text \<open>
  Over the lifetime of a crawl the frontier is touched by \<open>enqueue\<close> and by
  \<open>queue.popleft()\<close> only, the latter under the loop's guard \<open>while queue\<close>.  A run of
  such operations returns the URLs taken from the queue, in order, and the frontier; the
  frontier entries of the whole run are the URLs taken followed by the URLs still queued.
\<close>

datatype frontier_op = Enqueue string | Popleft

fun frontier_run ::
  "crawl_env \<Rightarrow> frontier_op list \<Rightarrow> string list \<times> 'a frontier_scheme \<Rightarrow> string list \<times> 'a frontier_scheme" where
  "frontier_run env [] acc = acc"
| "frontier_run env (Enqueue u # ops) (out, st) = frontier_run env ops (out, enqueue env u st)"
| "frontier_run env (Popleft # ops) (out, st) =
     (case queue st of
        [] \<Rightarrow> frontier_run env ops (out, st)
      | x # xs \<Rightarrow> frontier_run env ops (out @ [x], st\<lparr>queue := xs\<rparr>))"

definition entries :: "string list \<times> 'a frontier_scheme \<Rightarrow> string list" where
  "entries r = fst r @ queue (snd r)"

definition check_passes :: "crawl_env \<Rightarrow> string \<Rightarrow> admission_check \<Rightarrow> bool" where
  \<comment> \<open>what each of the four checks of the admission policy asks of a URL\<close>
  "check_passes env u c =
     (case c of
        SchemeCheck \<Rightarrow> is_http_url env u
      | SameHostCheck \<Rightarrow> same_site env u (start_url env)
      | PathCheck \<Rightarrow> allowed_re_match env (url_path (urlparse env u))
      | RobotsCheck \<Rightarrow> (case rp env of None \<Rightarrow> True | Some can_fetch \<Rightarrow> can_fetch (user_agent env) u))"

text \<open>
  An environment for concrete runs.  On URLs of the shape \<open>scheme://netloc/path\<close>,
  optionally followed by \<open>?query\<close> and \<open>#fragment\<close>, and without \<open>;\<close>, \<open>urllib\<close> splits
  as \<open>sample_urlparse\<close> does, the scheme in lower case.  \<open>urldefrag\<close> returns a URL
  without \<open>#\<close> as it is; otherwise it parses the URL and puts it together again
  without the fragment, which also puts the scheme in lower case and drops the \<open>?\<close> of
  an empty query.  The allow-pattern is the default \<open>^/(focodemag|focode)[^?#]*$\<close>;
  there is no robots policy.
\<close>

definition sample_urlparse :: "string \<Rightarrow> url_parts" where
  "sample_urlparse u =
     (let s = takeWhile (\<lambda>c. c \<noteq> CHR '':'') u;
          r = drop (length s + 3) u;
          n = takeWhile (\<lambda>c. c \<noteq> CHR ''/'' \<and> c \<noteq> CHR ''?'' \<and> c \<noteq> CHR ''#'') r;
          p = takeWhile (\<lambda>c. c \<noteq> CHR ''?'' \<and> c \<noteq> CHR ''#'') (drop (length n) r)
      in \<lparr>url_scheme = py_lower s, url_netloc = n, url_path = p\<rparr>)"

definition sample_urldefrag :: "string \<Rightarrow> string" where
  "sample_urldefrag u =
     (if CHR ''#'' \<notin> set u then u
      else (let b = takeWhile (\<lambda>c. c \<noteq> CHR ''#'') u;
                s = takeWhile (\<lambda>c. c \<noteq> CHR '':'') b;
                r = drop (length s) b;
                p = takeWhile (\<lambda>c. c \<noteq> CHR ''?'') r
            in py_lower s @ (if drop (length p + 1) r = [] then p else r)))"

definition default_allowed_path :: "string \<Rightarrow> bool" where
  "default_allowed_path p =
     ((startswith p ''/focodemag'' \<or> startswith p ''/focode'') \<and>
      CHR ''?'' \<notin> set p \<and> CHR ''#'' \<notin> set p)"

definition sample_env :: crawl_env where
  "sample_env = \<lparr>urlparse = sample_urlparse, urldefrag = sample_urldefrag,
     allowed_re_match = default_allowed_path, rp = None,
     user_agent = ''Mozilla/5.0'', start_url = ''https://www.focode.org/''\<rparr>"

section \<open>Static fetch with retries\<close>

text \<open>
  \<^verbatim>\<open>
  def fetch(session, url, timeout, retries) -> tuple[str, str]:
      last_err = None
      for attempt in range(retries + 1):
          try:
              resp = session.get(url, timeout=timeout, allow_redirects=True)
              resp.raise_for_status()
              resp.encoding = resp.apparent_encoding or resp.encoding
              return resp.text, resp.url
          except Exception as e:
              last_err = e
              if attempt < retries: time.sleep(0.8 * (2 ** attempt) + random.random() * 0.2)
      raise RuntimeError(f"Fetch failed for {url}: {last_err}")
  \<close>
  An exception is a value that carries its message.  The network is given by the outcome
  of each attempt, numbered as the loop numbers them: the exception raised inside the
  \<open>try\<close>, or the body and the final URL of the response.  \<open>rnd k\<close> is the value of
  \<open>random.random()\<close> drawn after attempt \<open>k\<close>.  Seconds are real numbers.  The function
  returns, next to its result, the requests it made and the pauses it took, in order.
\<close>

datatype py_error = RuntimeError string | OtherError string

fun err_str :: "py_error \<Rightarrow> string" where
  \<comment> \<open>\<open>str(e)\<close>\<close>
  "err_str (RuntimeError m) = m"
| "err_str (OtherError m) = m"

datatype fetch_event = Get nat | Sleep real

definition backoff_delay :: "(nat \<Rightarrow> real) \<Rightarrow> nat \<Rightarrow> real" where
  \<comment> \<open>the argument of \<open>time.sleep\<close> after attempt \<open>attempt\<close>\<close>
  "backoff_delay rnd attempt = 0.8 * 2 ^ attempt + rnd attempt * 0.2"

fun fetch_attempts ::
  "(nat \<Rightarrow> py_error + string \<times> string) \<Rightarrow> (nat \<Rightarrow> real) \<Rightarrow> string \<Rightarrow> int \<Rightarrow> nat list \<Rightarrow>
   py_error option \<Rightarrow> fetch_event list \<Rightarrow> fetch_event list \<times> (py_error + string \<times> string)" where
  "fetch_attempts get rnd url retries [] last_err tr =
     (tr, Inl (RuntimeError (''Fetch failed for '' @ url @ '': '' @
        (case last_err of None \<Rightarrow> ''None'' | Some e \<Rightarrow> err_str e))))"
| "fetch_attempts get rnd url retries (attempt # rest) last_err tr =
     (case get attempt of
        Inr r \<Rightarrow> (tr @ [Get attempt], Inr r)
      | Inl e \<Rightarrow>
          fetch_attempts get rnd url retries rest (Some e)
            (if int attempt < retries
             then tr @ [Get attempt, Sleep (backoff_delay rnd attempt)]
             else tr @ [Get attempt]))"

definition fetch ::
  "(nat \<Rightarrow> py_error + string \<times> string) \<Rightarrow> (nat \<Rightarrow> real) \<Rightarrow> string \<Rightarrow> int \<Rightarrow>
   fetch_event list \<times> (py_error + string \<times> string)" where
  "fetch get rnd url retries =
     fetch_attempts get rnd url retries [0..<nat (retries + 1)] None []"

text \<open>
  What the specification says of the pauses: a base delay that starts at 0.8 seconds and
  doubles with every attempt, plus an offset; and of a run of \<open>n\<close> attempts: a pause
  after every attempt but the last.
\<close>

fun backoff_base :: "nat \<Rightarrow> real" where
  "backoff_base 0 = 0.8"
| "backoff_base (Suc k) = 2 * backoff_base k"

definition attempts_trace :: "(nat \<Rightarrow> real) \<Rightarrow> nat \<Rightarrow> fetch_event list" where
  "attempts_trace rnd n =
     concat (map (\<lambda>k. [Get k, Sleep (backoff_base k + 0.2 * rnd k)]) [0..<n - 1]) @ [Get (n - 1)]"

section \<open>Documents\<close>

text \<open>
  The parsed document is \<open>BeautifulSoup\<close>'s tree.  An element has a name, attributes
  and contents; its \<open>class\<close> attribute is a list of strings under the parsers for
  markup (the code also accepts a plain string), every other attribute the code reads
  (\<open>id\<close>, \<open>src\<close>, \<open>data-src\<close>, \<open>alt\<close>) is a string.  A text node is a
  \<open>NavigableString\<close>; a comment stands for the other kinds of string node, which
  \<open>get_text\<close> leaves out.
\<close>

datatype attr_val = AStr string | AList "string list"

datatype node =
    Tag string "attr_val option" "(string \<times> string) list" "node list"
  | Text string
  | Comment string

fun is_tag :: "node \<Rightarrow> bool" where
  "is_tag (Tag n c a cs) = True"
| "is_tag _ = False"

fun tag_name :: "node \<Rightarrow> string" where
  "tag_name (Tag n c a cs) = n"
| "tag_name _ = []"

fun contents :: "node \<Rightarrow> node list" where
  "contents (Tag n c a cs) = cs"
| "contents _ = []"

fun attr_get :: "node \<Rightarrow> string \<Rightarrow> string option" where
  \<comment> \<open>\<open>el.get(key)\<close> for a string attribute\<close>
  "attr_get (Tag n c a cs) k = map_of a k"
| "attr_get _ k = None"

fun descendants :: "node \<Rightarrow> node list" where
  \<comment> \<open>\<open>el.descendants\<close>: document order\<close>
  "descendants (Tag n c a cs) = concat (map (\<lambda>x. x # descendants x) cs)"
| "descendants (Text s) = []"
| "descendants (Comment s) = []"

definition find_all_names :: "string list \<Rightarrow> node \<Rightarrow> node list" where
  \<comment> \<open>\<open>el.find_all(names, recursive=True)\<close>\<close>
  "find_all_names names el = filter (\<lambda>x. is_tag x \<and> tag_name x \<in> set names) (descendants el)"

definition find_children :: "string \<Rightarrow> node \<Rightarrow> node list" where
  \<comment> \<open>\<open>el.find_all(name, recursive=False)\<close>\<close>
  "find_children name el = filter (\<lambda>x. is_tag x \<and> tag_name x = name) (contents el)"

fun node_strings :: "node \<Rightarrow> string list" where
  "node_strings (Text s) = [s]"
| "node_strings _ = []"

definition all_strings :: "node \<Rightarrow> string list" where
  "all_strings el = concat (map node_strings (descendants el))"

definition get_text :: "string \<Rightarrow> bool \<Rightarrow> node \<Rightarrow> string" where
  \<comment> \<open>\<open>el.get_text(sep, strip=strip)\<close>; \<open>el.get_text()\<close> is \<open>get_text [] False el\<close>\<close>
  "get_text sep strip el =
     py_join sep (if strip then filter (\<lambda>s. s \<noteq> []) (map py_strip (all_strings el))
                  else all_strings el)"

section \<open>Noise stripping\<close>

text \<open>
  \<^verbatim>\<open>
  def strip_unwanted(container: Tag) -> None:
      for sel in ["script", "style", "noscript", "svg", "form", "iframe", "header", "footer", "nav", "aside"]:
          for t in container.select(sel):
              t.decompose()
      noise_kw = re.compile(r"(share|social|comment|related|cookie|ads?|promo|newsletter)", re.I)
      for t in list(container.find_all(True))[::-1]:
          attrs = getattr(t, "attrs", None)
          if attrs is None:
              continue
          cls_val = attrs.get("class", [])
          if isinstance(cls_val, (list, tuple)):
              cls = " ".join(cls_val)
          else:
              cls = str(cls_val or "")
          tid = attrs.get("id", "") or ""
          if noise_kw.search(cls) or noise_kw.search(tid):
              t.decompose()
  \<close>
  \<open>decompose\<close> takes an element, with all below it, out of the tree.  Each loop
  decomposes the elements below the container that satisfy a test on the element alone
  (its name, or its class and id), and the second loop visits an element before its
  ancestors; after a loop the tree is the one without those elements.  The function
  changes the container in place; the model returns the new container.
\<close>

fun decompose_where :: "(node \<Rightarrow> bool) \<Rightarrow> node \<Rightarrow> node" where
  "decompose_where P (Tag n c a cs) =
     Tag n c a (map (decompose_where P) (filter (\<lambda>x. \<not> (is_tag x \<and> P x)) cs))"
| "decompose_where P (Text s) = Text s"
| "decompose_where P (Comment s) = Comment s"

fun contains :: "string \<Rightarrow> string \<Rightarrow> bool" where
  \<comment> \<open>whether the second string occurs in the first\<close>
  "contains [] k = (k = [])"
| "contains (c # cs) k = (startswith (c # cs) k \<or> contains cs k)"

definition noise_kw_search :: "string \<Rightarrow> bool" where
  \<comment> \<open>\<open>noise_kw.search(s)\<close> finds a match; \<open>ads?\<close> matches wherever \<open>ad\<close> occurs\<close>
  "noise_kw_search s =
     list_ex (contains (py_lower s))
       [''share'', ''social'', ''comment'', ''related'', ''cookie'', ''ad'', ''promo'', ''newsletter'']"

fun noisy :: "node \<Rightarrow> bool" where
  "noisy (Tag n c a cs) =
     (let cls = (case c of None \<Rightarrow> py_join '' '' [] | Some (AList l) \<Rightarrow> py_join '' '' l | Some (AStr s) \<Rightarrow> s);
          tid = (case map_of a ''id'' of None \<Rightarrow> [] | Some s \<Rightarrow> s)
      in noise_kw_search cls \<or> noise_kw_search tid)"
| "noisy _ = False"

definition strip_unwanted :: "node \<Rightarrow> node" where
  "strip_unwanted container =
     decompose_where noisy
       (foldl (\<lambda>c sel. decompose_where (\<lambda>t. tag_name t = sel) c) container
          [''script'', ''style'', ''noscript'', ''svg'', ''form'', ''iframe'', ''header'',
           ''footer'', ''nav'', ''aside''])"

section \<open>Block extraction\<close>

record ContentBlock =
  cb_type :: string
  cb_text :: "string option"
  cb_level :: "int option"
  cb_items :: "string list option"
  cb_src :: "string option"
  cb_alt :: "string option"

record ImageRef =
  img_src :: string
  img_alt :: "string option"

definition new_block :: "string \<Rightarrow> ContentBlock" where
  \<comment> \<open>\<open>ContentBlock(type=t)\<close>: the other fields default to \<open>None\<close>\<close>
  "new_block t = \<lparr>cb_type = t, cb_text = None, cb_level = None, cb_items = None,
                  cb_src = None, cb_alt = None\<rparr>"

definition truthy :: "string option \<Rightarrow> bool" where
  "truthy v = (case v of None \<Rightarrow> False | Some s \<Rightarrow> s \<noteq> [])"

text \<open>
  \<^verbatim>\<open>
  def absolutize(url: str, base: str) -> str:
      return urljoin(base, url)

      def add_image(img: Tag):
          src = img.get("src") or img.get("data-src") or ""
          if not src: return
          src = absolutize(src, base_url)
          alt = img.get("alt") or None
          images.append({"src": src, "alt": alt})
          blocks.append(ContentBlock(type="image", src=src, alt=alt))
  \<close>
  \<open>urljoin\<close> is \<open>urllib\<close>'s and a parameter of the model.  The two lists that
  \<open>extract_blocks\<close> builds are passed through as a pair.
\<close>

definition absolutize :: "(string \<Rightarrow> string \<Rightarrow> string) \<Rightarrow> string \<Rightarrow> string \<Rightarrow> string" where
  "absolutize urljoin url base = urljoin base url"

definition add_image ::
  "(string \<Rightarrow> string \<Rightarrow> string) \<Rightarrow> string \<Rightarrow> node \<Rightarrow>
   ContentBlock list \<times> ImageRef list \<Rightarrow> ContentBlock list \<times> ImageRef list" where
  "add_image urljoin base_url img acc =
     (let src = (if truthy (attr_get img ''src'') then the (attr_get img ''src'')
                 else if truthy (attr_get img ''data-src'') then the (attr_get img ''data-src'')
                 else [])
      in if src = [] then acc
         else (let src = absolutize urljoin src base_url;
                   alt = (if truthy (attr_get img ''alt'') then attr_get img ''alt'' else None)
               in (fst acc @ [(new_block ''image'')\<lparr>cb_src := Some src, cb_alt := alt\<rparr>],
                   snd acc @ [\<lparr>img_src = src, img_alt = alt\<rparr>])))"

text \<open>
  \<^verbatim>\<open>
  for el in container.find_all(["h1", "h2", "h3", "h4", "h5", "p", "ul", "ol", "blockquote", "pre", "img"], recursive=True):
      if not isinstance(el, Tag): continue
      name = el.name.lower()
      if name == "img": add_image(el)
      elif name.startswith("h"):
          txt = normalize_ws(el.get_text(" ", strip=True))
          if txt: blocks.append(ContentBlock(type="heading", level=int(name[1]), text=txt))
      elif name == "p":
          imgs = el.find_all("img")
          if imgs and normalize_ws(el.get_text(" ", strip=True)) == "":
              for i in imgs: add_image(i)
          else:
              txt = normalize_ws(el.get_text(" ", strip=True))
              if txt: blocks.append(ContentBlock(type="paragraph", text=txt))
      elif name in ("ul", "ol"):
          items = [normalize_ws(li.get_text(" ", strip=True)) for li in el.find_all("li", recursive=False) if normalize_ws(li.get_text())]
          if items: blocks.append(ContentBlock(type="list", items=items))
      elif name == "blockquote":
          txt = normalize_ws(el.get_text(" ", strip=True))
          if txt: blocks.append(ContentBlock(type="quote", text=txt))
      elif name == "pre":
          txt = el.get_text("\n", strip=True).strip("\n")
          if txt: blocks.append(ContentBlock(type="code", text=txt))
  return blocks, images
  \<close>
  \<open>visit_el\<close> is one turn of the loop.  The loop visits elements whose name is in the
  list, so a name that starts with \<open>h\<close> has a second character, a digit.
\<close>

definition block_names :: "string list" where
  "block_names = [''h1'', ''h2'', ''h3'', ''h4'', ''h5'', ''p'', ''ul'', ''ol'', ''blockquote'', ''pre'', ''img'']"

definition visit_el ::
  "(string \<Rightarrow> string \<Rightarrow> string) \<Rightarrow> string \<Rightarrow> node \<Rightarrow>
   ContentBlock list \<times> ImageRef list \<Rightarrow> ContentBlock list \<times> ImageRef list" where
  "visit_el urljoin base_url el acc =
     (let name = py_lower (tag_name el)
      in if name = ''img'' then add_image urljoin base_url el acc
         else if startswith name ''h'' then
           (let txt = normalize_ws (get_text '' '' True el)
            in if txt \<noteq> []
               then (fst acc @ [(new_block ''heading'')
                       \<lparr>cb_level := Some (int_of_digits [name ! 1]), cb_text := Some txt\<rparr>], snd acc)
               else acc)
         else if name = ''p'' then
           (let imgs = find_all_names [''img''] el
            in if imgs \<noteq> [] \<and> normalize_ws (get_text '' '' True el) = []
               then foldl (\<lambda>a i. add_image urljoin base_url i a) acc imgs
               else (let txt = normalize_ws (get_text '' '' True el)
                     in if txt \<noteq> []
                        then (fst acc @ [(new_block ''paragraph'')\<lparr>cb_text := Some txt\<rparr>], snd acc)
                        else acc))
         else if name = ''ul'' \<or> name = ''ol'' then
           (let items = map (\<lambda>li. normalize_ws (get_text '' '' True li))
                          (filter (\<lambda>li. normalize_ws (get_text [] False li) \<noteq> [])
                             (find_children ''li'' el))
            in if items \<noteq> []
               then (fst acc @ [(new_block ''list'')\<lparr>cb_items := Some items\<rparr>], snd acc)
               else acc)
         else if name = ''blockquote'' then
           (let txt = normalize_ws (get_text '' '' True el)
            in if txt \<noteq> []
               then (fst acc @ [(new_block ''quote'')\<lparr>cb_text := Some txt\<rparr>], snd acc)
               else acc)
         else if name = ''pre'' then
           (let txt = py_strip_chars is_nl (get_text [CHR 0x0A] True el)
            in if txt \<noteq> []
               then (fst acc @ [(new_block ''code'')\<lparr>cb_text := Some txt\<rparr>], snd acc)
               else acc)
         else acc)"

definition extract_blocks ::
  "(string \<Rightarrow> string \<Rightarrow> string) \<Rightarrow> node \<Rightarrow> string \<Rightarrow> ContentBlock list \<times> ImageRef list" where
  "extract_blocks urljoin container base_url =
     foldl (\<lambda>acc el. visit_el urljoin base_url el acc) ([], [])
       (find_all_names block_names container)"

text \<open>
  The heading block that the specification gives an element: for a tag \<open>h\<close>\<open>k\<close> with
  non-empty normalized text, the block of level \<open>k\<close> with that text.  \<open>levels\<close> are the
  levels considered.
\<close>

definition heading_tag :: "int \<Rightarrow> string" where
  "heading_tag k = [CHR ''h'', digit_char k]"

definition heading_blocks :: "int list \<Rightarrow> node \<Rightarrow> ContentBlock list" where
  "heading_blocks levels el =
     concat (map (\<lambda>k. if is_tag el \<and> tag_name el = heading_tag k \<and>
                          normalize_ws (get_text '' '' True el) \<noteq> []
                       then [\<lparr>cb_type = ''heading'',
                              cb_text = Some (normalize_ws (get_text '' '' True el)),
                              cb_level = Some k, cb_items = None, cb_src = None, cb_alt = None\<rparr>]
                       else []) levels)"

definition sample_urljoin :: "string \<Rightarrow> string \<Rightarrow> string" where
  \<comment> \<open>\<open>urljoin(base, url)\<close> when \<open>url\<close> is absolute, as the URLs of the examples are\<close>
  "sample_urljoin base url = url"

section \<open>Sitemaps\<close>

text \<open>
  \<open>ET.fromstring\<close> is the library's parser and a parameter of the model: it gives the root
  element, or nothing where it raises.  An element has its tag, which holds the namespace
  in braces before the local name, its text and its children.
  \<^verbatim>\<open>
  def parse_sitemap_urls(sitemap_xml: str) -> list[str]:
      urls = []
      try:
          root = ET.fromstring(sitemap_xml)
          ns = {"sm": "http://www.sitemaps.org/schemas/sitemap/0.9"}
          if root.tag.endswith("sitemapindex"):
              urls = [loc.text.strip() for loc in root.findall(".//sm:sitemap/sm:loc", ns) if loc.text]
          elif root.tag.endswith("urlset"):
              urls = [loc.text.strip() for loc in root.findall(".//sm:url/sm:loc", ns) if loc.text]
      except: pass
      return urls
  \<close>
  The path \<open>.//sm:kind/sm:loc\<close> selects, for every element \<open>kind\<close> below the root in
  document order, its children \<open>loc\<close>.
\<close>

datatype xml = Elem string "string option" "xml list"

fun xml_tag :: "xml \<Rightarrow> string" where
  "xml_tag (Elem t x cs) = t"

fun xml_text :: "xml \<Rightarrow> string option" where
  "xml_text (Elem t x cs) = x"

fun xml_children :: "xml \<Rightarrow> xml list" where
  "xml_children (Elem t x cs) = cs"

fun xml_descendants :: "xml \<Rightarrow> xml list" where
  "xml_descendants (Elem t x cs) = concat (map (\<lambda>c. c # xml_descendants c) cs)"

definition sm_tag :: "string \<Rightarrow> string" where
  "sm_tag name = ''{http://www.sitemaps.org/schemas/sitemap/0.9}'' @ name"

definition findall_locs :: "string \<Rightarrow> xml \<Rightarrow> xml list" where
  \<comment> \<open>\<open>root.findall(".//sm:kind/sm:loc", ns)\<close>\<close>
  "findall_locs kind doc =
     concat (map (\<lambda>e. filter (\<lambda>l. xml_tag l = sm_tag ''loc'') (xml_children e))
       (filter (\<lambda>e. xml_tag e = sm_tag kind) (xml_descendants doc)))"

definition loc_urls :: "xml list \<Rightarrow> string list" where
  \<comment> \<open>\<open>[loc.text.strip() for loc in locs if loc.text]\<close>\<close>
  "loc_urls locs = map (\<lambda>l. py_strip (the (xml_text l))) (filter (\<lambda>l. truthy (xml_text l)) locs)"

definition parse_sitemap_urls :: "(string \<Rightarrow> xml option) \<Rightarrow> string \<Rightarrow> string list" where
  "parse_sitemap_urls fromstring sitemap_xml =
     (case fromstring sitemap_xml of
        None \<Rightarrow> []
      | Some doc \<Rightarrow>
          if endswith (xml_tag doc) ''sitemapindex'' then loc_urls (findall_locs ''sitemap'' doc)
          else if endswith (xml_tag doc) ''urlset'' then loc_urls (findall_locs ''url'' doc)
          else [])"

text \<open>
  \<^verbatim>\<open>
  for sm in discover_sitemaps(start_url, session, timeout):
      try:
          xml, _ = fetch(session, sm, timeout, retries)
          urls = parse_sitemap_urls(xml)
          for u in urls:
              if u.endswith(".xml"): # Nested sitemap
                  nxml, _ = fetch(session, u, timeout, retries)
                  for nu in parse_sitemap_urls(nxml): enqueue(nu)
              else: enqueue(u)
      except: continue

  if not queue: enqueue(start_url)
  \<close>
  During seeding the world outside the program is: the parser of the library; the
  body that \<open>fetch\<close> returns for a URL, or nothing where \<open>fetch\<close> raises; and the
  strings on which \<open>urllib\<close> raises, in \<open>urldefrag(u)\<close> or in one of the parses that
  \<open>allowed(u)\<close> makes.  The state is the frontier together with the URLs fetched so far.
\<close>

record seed_world =
  w_fromstring :: "string \<Rightarrow> xml option"
  w_http :: "string \<Rightarrow> string option"
  w_defrag_raises :: "string \<Rightarrow> bool"  \<comment> \<open>\<open>urldefrag(u)\<close> raises\<close>
  w_allowed_raises :: "string \<Rightarrow> bool"  \<comment> \<open>\<open>allowed(u)\<close> raises\<close>

record seeding = frontier +
  fetched :: "string list"

text \<open>
  \<open>enqueue\<close> with the exceptions of the library: \<open>urldefrag\<close> is called first, and
  \<open>allowed\<close> only for a non-empty URL that is not in the seen-set; an exception leaves
  the frontier as it was.  \<open>None\<close> is the exception.
\<close>

definition enqueue_try ::
  "crawl_env \<Rightarrow> seed_world \<Rightarrow> string \<Rightarrow> 'a frontier_scheme \<Rightarrow> 'a frontier_scheme option" where
  "enqueue_try env w u st =
     (if w_defrag_raises w u then None
      else (let d = urldefrag env u
            in if d \<noteq> [] \<and> d \<notin> seen st
               then (if w_allowed_raises w d then None
                     else if allowed env d
                       then Some (st\<lparr>seen := insert d (seen st), queue := queue st @ [d]\<rparr>)
                       else Some st)
               else Some st))"

text \<open>
  The body of the \<open>try\<close> for one sitemap either runs to its end or is abandoned at the
  first exception, with the state of that moment; \<open>except: continue\<close> then goes on to
  the next sitemap with that state.
\<close>

datatype seed_result = Completed seeding | Abandoned seeding

fun seed_state :: "seed_result \<Rightarrow> seeding" where
  "seed_state (Completed st) = st"
| "seed_state (Abandoned st) = st"

fun enqueue_all :: "crawl_env \<Rightarrow> seed_world \<Rightarrow> string list \<Rightarrow> seeding \<Rightarrow> seed_result" where
  \<comment> \<open>\<open>for nu in ...: enqueue(nu)\<close>\<close>
  "enqueue_all env w [] st = Completed st"
| "enqueue_all env w (nu # nus) st =
     (case enqueue_try env w nu st of
        None \<Rightarrow> Abandoned st
      | Some st' \<Rightarrow> enqueue_all env w nus st')"

fun seed_urls :: "crawl_env \<Rightarrow> seed_world \<Rightarrow> string list \<Rightarrow> seeding \<Rightarrow> seed_result" where
  \<comment> \<open>\<open>for u in urls: ...\<close>\<close>
  "seed_urls env w [] st = Completed st"
| "seed_urls env w (u # us) st =
     (if endswith u ''.xml'' then
        (case w_http w u of
           None \<Rightarrow> Abandoned (st\<lparr>fetched := fetched st @ [u]\<rparr>)
         | Some nxml \<Rightarrow>
             (case enqueue_all env w (parse_sitemap_urls (w_fromstring w) nxml)
                     (st\<lparr>fetched := fetched st @ [u]\<rparr>) of
                Abandoned st' \<Rightarrow> Abandoned st'
              | Completed st' \<Rightarrow> seed_urls env w us st'))
      else
        (case enqueue_try env w u st of
           None \<Rightarrow> Abandoned st
         | Some st' \<Rightarrow> seed_urls env w us st'))"

definition seed_sitemap_body :: "crawl_env \<Rightarrow> seed_world \<Rightarrow> string \<Rightarrow> seeding \<Rightarrow> seed_result" where
  \<comment> \<open>the body of the \<open>try\<close> for the sitemap \<open>sm\<close>\<close>
  "seed_sitemap_body env w sm st =
     (case w_http w sm of
        None \<Rightarrow> Abandoned (st\<lparr>fetched := fetched st @ [sm]\<rparr>)
      | Some xml \<Rightarrow>
          seed_urls env w (parse_sitemap_urls (w_fromstring w) xml)
            (st\<lparr>fetched := fetched st @ [sm]\<rparr>))"

definition seed_sitemap :: "crawl_env \<Rightarrow> seed_world \<Rightarrow> string \<Rightarrow> seeding \<Rightarrow> seeding" where
  \<comment> \<open>one turn of the loop over the sitemaps: the \<open>try\<close> with its \<open>except: continue\<close>\<close>
  "seed_sitemap env w sm st = seed_state (seed_sitemap_body env w sm st)"

definition seed_frontier ::
  "crawl_env \<Rightarrow> seed_world \<Rightarrow> string list \<Rightarrow> seeding \<Rightarrow> seeding option" where
  \<comment> \<open>the seeding of the frontier; the last \<open>enqueue\<close> is outside every \<open>try\<close>\<close>
  "seed_frontier env w sitemaps st =
     (let st' = foldl (\<lambda>s sm. seed_sitemap env w sm s) st sitemaps
      in if queue st' = [] then enqueue_try env w (start_url env) st' else Some st')"

text \<open>
  What the specification says of seeding, as steps taken in order: fetch a document,
  or hand a URL to \<open>enqueue\<close>.  A fetch that raises and an \<open>enqueue\<close> that raises
  abandon the steps that follow.  The entries of a document are read off its tree: below
  a root whose tag ends in \<open>sitemapindex\<close>, the text of every \<open>loc\<close> child of a
  \<open>sitemap\<close> element; below a root whose tag ends in \<open>urlset\<close>, that of every \<open>loc\<close>
  child of a \<open>url\<close> element; every text stripped, empty ones left out.  An entry that
  ends in \<open>.xml\<close> stands for one fetch and for the entries of the document fetched, each
  handed to \<open>enqueue\<close>; any other entry is handed to \<open>enqueue\<close> itself.
\<close>

datatype seed_step = FetchStep string | EnqueueStep string

fun run_steps :: "crawl_env \<Rightarrow> seed_world \<Rightarrow> seed_step list \<Rightarrow> seeding \<Rightarrow> seed_result" where
  "run_steps env w [] st = Completed st"
| "run_steps env w (FetchStep u # steps) st =
     (if w_http w u = None then Abandoned (st\<lparr>fetched := fetched st @ [u]\<rparr>)
      else run_steps env w steps (st\<lparr>fetched := fetched st @ [u]\<rparr>))"
| "run_steps env w (EnqueueStep u # steps) st =
     (case enqueue_try env w u st of
        None \<Rightarrow> Abandoned st
      | Some st' \<Rightarrow> run_steps env w steps st')"

fun spec_locs :: "string \<Rightarrow> xml \<Rightarrow> string list" where
  "spec_locs kind (Elem t x cs) =
     concat (map (\<lambda>c.
         (if xml_tag c = sm_tag kind
          then concat (map (\<lambda>l. if xml_tag l = sm_tag ''loc'' \<and> truthy (xml_text l)
                                  then [py_strip (the (xml_text l))] else [])
                        (xml_children c))
          else []) @ spec_locs kind c) cs)"

definition spec_entries :: "seed_world \<Rightarrow> string \<Rightarrow> string list" where
  "spec_entries w body =
     (case w_fromstring w body of
        None \<Rightarrow> []
      | Some doc \<Rightarrow>
          if endswith (xml_tag doc) ''sitemapindex'' then spec_locs ''sitemap'' doc
          else if endswith (xml_tag doc) ''urlset'' then spec_locs ''url'' doc
          else [])"

definition entry_steps :: "seed_world \<Rightarrow> string \<Rightarrow> seed_step list" where
  "entry_steps w u =
     (if endswith u ''.xml''
      then FetchStep u #
           (case w_http w u of None \<Rightarrow> [] | Some nxml \<Rightarrow> map EnqueueStep (spec_entries w nxml))
      else [EnqueueStep u])"

definition sitemap_steps :: "seed_world \<Rightarrow> string \<Rightarrow> seed_step list" where
  "sitemap_steps w sm =
     FetchStep sm #
     (case w_http w sm of
        None \<Rightarrow> []
      | Some xml \<Rightarrow> concat (map (entry_steps w) (spec_entries w xml)))"

text \<open>
  A site for concrete runs.  Its sitemap index has two entries, one of which does not
  end in \<open>.xml\<close>; a second index names a sitemap that cannot be fetched before one that
  can; one URL set has two pages, another has a malformed entry between two pages.
  \<open>urllib\<close> raises on a network location with an opening bracket and no closing one;
  \<open>urldefrag\<close> parses only a URL that holds a \<open>#\<close>.
\<close>

definition sm_open :: "string \<Rightarrow> string" where
  "sm_open name =
     ''<'' @ name @ '' xmlns='' @ [CHR 0x22] @ ''http://www.sitemaps.org/schemas/sitemap/0.9'' @
     [CHR 0x22] @ ''>''"

definition sample_index_xml :: string where
  "sample_index_xml =
     sm_open ''sitemapindex'' @
     ''<sitemap><loc>https://www.focode.org/posts.xml</loc></sitemap>'' @
     ''<sitemap><loc>https://www.focode.org/focode/sitemap-pages</loc></sitemap>'' @
     ''</sitemapindex>''"

definition sample_index2_xml :: string where
  "sample_index2_xml =
     sm_open ''sitemapindex'' @
     ''<sitemap><loc>https://www.focode.org/missing.xml</loc></sitemap>'' @
     ''<sitemap><loc>https://www.focode.org/posts.xml</loc></sitemap>'' @
     ''</sitemapindex>''"

definition sample_urlset_xml :: string where
  "sample_urlset_xml =
     sm_open ''urlset'' @
     ''<url><loc>https://www.focode.org/focode/a</loc></url>'' @
     ''<url><loc> https://www.focode.org/focodemag/b </loc></url>'' @
     ''</urlset>''"

definition sample_news_xml :: string where
  "sample_news_xml =
     sm_open ''urlset'' @
     ''<url><loc>https://www.focode.org/focode/c</loc></url>'' @
     ''<url><loc>https://[www.focode.org/focode/x</loc></url>'' @
     ''<url><loc>https://www.focode.org/focode/d</loc></url>'' @
     ''</urlset>''"

definition sample_doc :: "string \<Rightarrow> string \<Rightarrow> string list \<Rightarrow> xml" where
  \<comment> \<open>the tree of a document with the given root and one entry per text\<close>
  "sample_doc name kind locs =
     Elem (sm_tag name) None
       (map (\<lambda>t. Elem (sm_tag kind) None [Elem (sm_tag ''loc'') (Some t) []]) locs)"

definition sample_fromstring :: "string \<Rightarrow> xml option" where
  "sample_fromstring s =
     (if s = sample_index_xml then
        Some (sample_doc ''sitemapindex'' ''sitemap''
          [''https://www.focode.org/posts.xml'', ''https://www.focode.org/focode/sitemap-pages''])
      else if s = sample_index2_xml then
        Some (sample_doc ''sitemapindex'' ''sitemap''
          [''https://www.focode.org/missing.xml'', ''https://www.focode.org/posts.xml''])
      else if s = sample_urlset_xml then
        Some (sample_doc ''urlset'' ''url''
          [''https://www.focode.org/focode/a'', '' https://www.focode.org/focodemag/b ''])
      else if s = sample_news_xml then
        Some (sample_doc ''urlset'' ''url''
          [''https://www.focode.org/focode/c'', ''https://[www.focode.org/focode/x'',
           ''https://www.focode.org/focode/d''])
      else None)"

definition sample_http :: "string \<Rightarrow> string option" where
  "sample_http u =
     (if u = ''https://www.focode.org/sitemap_index.xml'' then Some sample_index_xml
      else if u = ''https://www.focode.org/sitemap.xml'' then Some sample_index2_xml
      else if u = ''https://www.focode.org/posts.xml'' then Some sample_urlset_xml
      else if u = ''https://www.focode.org/news.xml'' then Some sample_news_xml
      else None)"

definition sample_raises :: "string \<Rightarrow> bool" where
  "sample_raises u = (CHR ''['' \<in> set u \<and> CHR '']'' \<notin> set u)"

definition sample_defrag_raises :: "string \<Rightarrow> bool" where
  "sample_defrag_raises u = (CHR ''#'' \<in> set u \<and> sample_raises u)"

definition sample_world :: seed_world where
  "sample_world = \<lparr>w_fromstring = sample_fromstring, w_http = sample_http,
     w_defrag_raises = sample_defrag_raises, w_allowed_raises = sample_raises\<rparr>"

definition seeding_init :: seeding where
  "seeding_init = \<lparr>queue = [], seen = {}, fetched = []\<rparr>"

section \<open>The crawl loop and the browser session\<close>

text \<open>
  \<^verbatim>\<open>
  class JSRenderer:
      def close(self):
          try:
              self._ctx.close()
              self._browser.close()
          finally:
              self._pw.stop()
  \<close>
  The calls on the browser session are recorded as events.  Each of the three calls of
  \<open>close\<close> may raise; \<open>finally\<close> runs \<open>stop\<close> in every case, and an exception of
  \<open>stop\<close> replaces the one in flight.
\<close>

datatype browser_event = Goto string | CtxClose | BrowserClose | PwStop

record close_outcomes =
  ctx_close_err :: "py_error option"
  browser_close_err :: "py_error option"
  pw_stop_err :: "py_error option"

definition renderer_close :: "close_outcomes \<Rightarrow> browser_event list \<times> py_error option" where
  "renderer_close oc =
     (case ctx_close_err oc of
        Some e \<Rightarrow> ([CtxClose, PwStop], (case pw_stop_err oc of Some e' \<Rightarrow> Some e' | None \<Rightarrow> Some e))
      | None \<Rightarrow>
          (case browser_close_err oc of
             Some e \<Rightarrow> ([CtxClose, BrowserClose, PwStop],
                        (case pw_stop_err oc of Some e' \<Rightarrow> Some e' | None \<Rightarrow> Some e))
           | None \<Rightarrow> ([CtxClose, BrowserClose, PwStop], pw_stop_err oc)))"

text \<open>
  \<^verbatim>\<open>
  try:
      while queue and len(records) < max_pages:
          url = queue.popleft()
          try:
              if renderer:
                  html, final_url = renderer.get(url)
              else:
                  html, final_url = fetch(session, url, timeout, retries)
          except Exception as e:
              print(f"[WARN] {e}", file=sys.stderr)
              continue
          soup = BeautifulSoup(html, "lxml")
          for a in soup.find_all("a", href=True):
              href = a.get("href", "").strip()
              if href and not href.startswith(("mailto:", "tel:", "javascript:")):
                  enqueue(absolutize(href, final_url))
          ...
          records.append(PageRecord(...))
          if sleep_s > 0: time.sleep(sleep_s + random.random() * 0.15)
  finally:
      if renderer: renderer.close()
  \<close>
  What a page does to the loop is given per URL: resolving it raises, which the loop
  catches; or something after that raises, which leaves the loop; or the page yields
  the links handed to \<open>enqueue\<close>, in order, and its record.
\<close>

record PageRecord =
  pr_source_url :: string
  pr_final_url :: string
  pr_slug :: string
  pr_title :: string
  pr_published_date :: "string option"
  pr_language :: "string option"
  pr_text :: string
  pr_blocks :: "ContentBlock list"
  pr_images :: "ImageRef list"
  pr_html :: string

datatype page_outcome =
    ResolveRaised py_error
  | BodyRaised py_error
  | Page "string list" PageRecord

record crawl_state = frontier +
  records :: "PageRecord list"

function crawl_loop ::
  "crawl_env \<Rightarrow> (string \<Rightarrow> page_outcome) \<Rightarrow> bool \<Rightarrow> int \<Rightarrow> crawl_state \<times> browser_event list \<Rightarrow>
   browser_event list \<times> (py_error + crawl_state)" where
  "crawl_loop env page use_js max_pages (st, tr) =
     (if queue st \<noteq> [] \<and> int (length (records st)) < max_pages then
        (let url = hd (queue st);
             st1 = st\<lparr>queue := tl (queue st)\<rparr>;
             tr1 = (if use_js then tr @ [Goto url] else tr)
         in case page url of
              ResolveRaised e \<Rightarrow> crawl_loop env page use_js max_pages (st1, tr1)
            | BodyRaised e \<Rightarrow> (tr1, Inl e)
            | Page links r \<Rightarrow>
                crawl_loop env page use_js max_pages
                  ((foldl (\<lambda>s l. enqueue env l s) st1 links)\<lparr>records := records st1 @ [r]\<rparr>, tr1))
      else (tr, Inr st))"
  by pat_completeness auto
termination
  by (relation "measures [\<lambda>(env, page, use_js, max_pages, st, tr). nat (max_pages - int (length (records st))),
                          \<lambda>(env, page, use_js, max_pages, st, tr). length (queue st)]")
     (auto simp: nat_diff_distrib)

declare crawl_loop.simps [simp del]

definition crawl_try ::
  "crawl_env \<Rightarrow> (string \<Rightarrow> page_outcome) \<Rightarrow> close_outcomes \<Rightarrow> bool \<Rightarrow> int \<Rightarrow> crawl_state \<Rightarrow>
   browser_event list \<times> (py_error + crawl_state)" where
  \<comment> \<open>the \<open>try\<close> statement of \<open>crawl_and_export\<close>\<close>
  "crawl_try env page oc use_js max_pages st =
     (let r = crawl_loop env page use_js max_pages (st, [])
      in if use_js
         then (let c = renderer_close oc
               in (fst r @ fst c, (case snd c of Some e \<Rightarrow> Inl e | None \<Rightarrow> snd r)))
         else r)"

fun is_goto :: "browser_event \<Rightarrow> bool" where
  "is_goto (Goto u) = True"
| "is_goto _ = False"

section \<open>Normal forms of whitespace\<close>

text \<open>
  Two predicates used in the proofs about \<open>normalize_ws\<close>: a string in which every
  horizontal whitespace character is a single space not followed by another one, and a
  string without three newlines in a row.
\<close>

fun hs_norm :: "string \<Rightarrow> bool" where
  "hs_norm [] = True"
| "hs_norm [c] = (is_hspace c \<longrightarrow> c = CHR '' '')"
| "hs_norm (c # d # cs) = ((is_hspace c \<longrightarrow> c = CHR '' '' \<and> \<not> is_hspace d) \<and> hs_norm (d # cs))"

fun nl_norm :: "string \<Rightarrow> bool" where
  "nl_norm (a # b # c # cs) = (\<not> (is_nl a \<and> is_nl b \<and> is_nl c) \<and> nl_norm (b # c # cs))"
| "nl_norm cs = True"

text \<open>
  The URLs that a run of frontier operations admits: the defragmented, non-empty, allowed
  URLs among those passed to \<open>enqueue\<close>.
\<close>

definition admitted :: "crawl_env \<Rightarrow> frontier_op list \<Rightarrow> string set" where
  "admitted env ops = {d. d \<noteq> [] \<and> allowed env d \<and> (\<exists>u. Enqueue u \<in> set ops \<and> urldefrag env u = d)}"

text \<open>
  What attempt \<open>k\<close> of \<open>fetch\<close> adds to the trace when it fails, and a network whose
  first two attempts time out.
\<close>

definition seg :: "(nat \<Rightarrow> real) \<Rightarrow> int \<Rightarrow> nat \<Rightarrow> fetch_event list" where
  "seg rnd retries k = (if int k < retries then [Get k, Sleep (backoff_delay rnd k)] else [Get k])"

definition sample_get :: "nat \<Rightarrow> py_error + string \<times> string" where
  "sample_get k = (if k = 2 then Inr (''<html></html>'', ''https://www.focode.org/focode'')
                   else Inl (OtherError ''timed out''))"

text \<open>
  Definitions for the proofs about block extraction: the image entry that belongs to an
  image block and the invariant of the two lists; noise stripping seen from one child of
  the container; and the elements of the fixture page of the end-to-end property.
\<close>

definition image_of :: "ContentBlock \<Rightarrow> ImageRef" where
  "image_of b = \<lparr>img_src = the (cb_src b), img_alt = cb_alt b\<rparr>"

definition images_inv :: "ContentBlock list \<times> ImageRef list \<Rightarrow> bool" where
  "images_inv acc = (snd acc = map image_of (filter (\<lambda>b. cb_type b = ''image'') (fst acc)) \<and>
     list_all (\<lambda>b. cb_type b = ''image'' \<longrightarrow> cb_src b \<noteq> None) (fst acc))"

definition is_heading_block :: "ContentBlock \<Rightarrow> bool" where
  "is_heading_block b = (cb_type b = ''heading'')"

definition unwanted_tags :: "string list" where
  "unwanted_tags = [''script'', ''style'', ''noscript'', ''svg'', ''form'', ''iframe'', ''header'',
           ''footer'', ''nav'', ''aside'']"

fun names_pass :: "string list \<Rightarrow> node \<Rightarrow> node list" where
  "names_pass [] x = [x]"
| "names_pass (sel # sels) x =
     (if is_tag x \<and> tag_name x = sel then []
      else names_pass sels (decompose_where (\<lambda>t. tag_name t = sel) x))"

definition strip_child :: "node \<Rightarrow> node list" where
  "strip_child x =
     concat (map (\<lambda>y. if is_tag y \<and> noisy y then [] else [decompose_where noisy y])
       (names_pass unwanted_tags x))"

definition fixture_h1 :: node where
  "fixture_h1 = Tag ''h1'' None [] [Text ''Title'']"

definition fixture_p :: "string \<Rightarrow> node" where
  "fixture_p t = Tag ''p'' None [] [Text t]"

definition fixture_ul :: node where
  "fixture_ul = Tag ''ul'' None [] [Tag ''li'' None [] [Text ''A''], Tag ''li'' None [] [Text ''B'']]"

definition fixture_share :: "(string \<times> string) list \<Rightarrow> node list \<Rightarrow> node" where
  "fixture_share attrs sub = Tag ''div'' (Some (AList [''social-share''])) attrs sub"

definition sample_page :: node where
  "sample_page = Tag ''article'' None []
     [Tag ''h2'' None [] [Text '' Notes  on  crawling ''],
      Tag ''h3'' None [] [Text ''  ''],
      Tag ''img'' None [(''alt'', ''no source'')] [],
      Tag ''p'' None [] [Tag ''img'' None [(''data-src'', ''https://www.focode.org/a.png''), (''alt'', ''A'')] []],
      Tag ''h6'' None [] [Text ''Small print'']]"

text \<open>
  A small site for concrete runs of the loop: the start page links to two pages of the
  site and to another host; resolving the first of them times out, and the second makes
  the loop body raise.  The browser session closes without error.
\<close>

definition sample_record :: "string \<Rightarrow> PageRecord" where
  "sample_record u = \<lparr>pr_source_url = u, pr_final_url = u, pr_slug = ''focode'', pr_title = ''focode'',
     pr_published_date = None, pr_language = None, pr_text = [], pr_blocks = [], pr_images = [],
     pr_html = []\<rparr>"

definition sample_outcome :: "string \<Rightarrow> page_outcome" where
  "sample_outcome u =
     (if u = ''https://www.focode.org/focode''
      then Page [''https://www.focode.org/focode/a'', ''https://www.focode.org/focode/b#top'',
                 ''https://other.example/focode'']
             (sample_record u)
      else if u = ''https://www.focode.org/focode/a'' then ResolveRaised (OtherError ''Timeout 20000ms exceeded'')
      else BodyRaised (OtherError ''Invalid IPv6 URL''))"

definition sample_close :: close_outcomes where
  "sample_close = \<lparr>ctx_close_err = None, browser_close_err = None, pw_stop_err = None\<rparr>"

definition sample_start :: "string \<Rightarrow> crawl_state" where
  "sample_start u = \<lparr>queue = [u], seen = {u}, records = []\<rparr>"

text \<open>
  The entries that \<open>parse_sitemap_urls\<close> reads off a list of elements, for the proof that
  they are the entries of the tree.
\<close>

definition locs_of :: "string \<Rightarrow> xml list \<Rightarrow> string list" where
  "locs_of kind es =
     loc_urls (concat (map (\<lambda>e. filter (\<lambda>l. xml_tag l = sm_tag ''loc'') (xml_children e))
       (filter (\<lambda>e. xml_tag e = sm_tag kind) es)))"

section \<open>Each URL enters the frontier at most once\<close>

lemma enqueue_seen: "seen (enqueue env u st) = (if urldefrag env u \<noteq> [] \<and> allowed env (urldefrag env u) then insert (urldefrag env u) (seen st) else seen st)"
  by (auto simp: enqueue_def Let_def)

lemma enqueue_queue: "queue (enqueue env u st) = (if urldefrag env u \<noteq> [] \<and> urldefrag env u \<notin> seen st \<and> allowed env (urldefrag env u) then queue st @ [urldefrag env u] else queue st)"
  by (auto simp: enqueue_def Let_def)

lemma enqueue_noop: "urldefrag env u \<in> seen st \<Longrightarrow> enqueue env u st = st"
  by (simp add: enqueue_def Let_def)

lemma admitted_Cons_Enq: "admitted env (Enqueue u # ops) = (if urldefrag env u \<noteq> [] \<and> allowed env (urldefrag env u) then insert (urldefrag env u) (admitted env ops) else admitted env ops)"
  by (auto simp: admitted_def)

lemma admitted_Cons_Pop: "admitted env (Popleft # ops) = admitted env ops"
  by (auto simp: admitted_def)

lemma frontier_run_inv:
  "distinct (out @ queue st) \<Longrightarrow> set (out @ queue st) = seen st \<Longrightarrow>
   distinct (entries (frontier_run env ops (out, st))) \<and>
   set (entries (frontier_run env ops (out, st))) = seen st \<union> admitted env ops \<and>
   seen (snd (frontier_run env ops (out, st))) = seen st \<union> admitted env ops"
proof (induction ops arbitrary: out st)
  case Nil
  then show ?case by (simp add: entries_def admitted_def)
next
  case (Cons op ops)
  show ?case
  proof (cases op)
    case (Enqueue u)
    let ?st = "enqueue env u st"
    have d: "distinct (out @ queue ?st)" using Cons.prems
      by (auto simp: enqueue_queue)
    have s: "set (out @ queue ?st) = seen ?st" using Cons.prems
      by (auto simp: enqueue_queue enqueue_seen)
    from Cons.IH [OF d s] show ?thesis unfolding Enqueue
      by (auto simp: enqueue_seen admitted_Cons_Enq)
  next
    case Popleft
    show ?thesis
    proof (cases "queue st")
      case Nil
      with Cons.IH [OF Cons.prems] show ?thesis unfolding Popleft
        by (simp add: admitted_Cons_Pop)
    next
      case (Cons x xs)
      let ?st = "st\<lparr>queue := xs\<rparr>"
      have d: "distinct ((out @ [x]) @ queue ?st)" using Cons.prems(1) Cons by simp
      have s: "set ((out @ [x]) @ queue ?st) = seen ?st" using Cons.prems(2) Cons by auto
      from Cons.IH [OF d s] show ?thesis unfolding Popleft using Cons
        by (simp add: admitted_Cons_Pop)
    qed
  qed
qed

lemma count_list_distinct: "distinct xs \<Longrightarrow> count_list xs x = (if x \<in> set xs then 1 else 0)"
  by (induction xs) auto

text \<open>
  The claim C1 as it is written asks for exactly one frontier entry whenever two URLs
  with the same defragmented form are enqueued.  Two URLs of another host have the same
  defragmented form and leave no entry at all.
\<close>

theorem enqueue_exactly_once_counterexample:
  "urldefrag sample_env ''https://other.example/focode/a#x'' =
     urldefrag sample_env ''https://other.example/focode/a#y'' \<and>
   count_list
     (entries (frontier_run sample_env
        [Enqueue ''https://other.example/focode/a#x'', Enqueue ''https://other.example/focode/a#y'']
        ([], frontier_init)))
     (urldefrag sample_env ''https://other.example/focode/a#x'') = 0"
  by code_simp

text \<open>
  Claim C1, amended: when two URLs that are equal after \<open>urldefrag\<close> are both enqueued,
  in any order and at any points of a run of \<open>enqueue\<close> and \<open>popleft\<close> operations that
  starts from the empty frontier, the defragmented URL is a frontier entry of the run
  exactly once if it is non-empty and allowed, and never otherwise; and enqueueing a URL
  whose defragmented form is in the seen-set changes neither the queue nor the seen-set.
\<close>

theorem enqueue_at_most_once:
  assumes "Enqueue u1 \<in> set ops" and "Enqueue u2 \<in> set ops"
    and "urldefrag env u1 = urldefrag env u2"
  shows "count_list (entries (frontier_run env ops ([], frontier_init))) (urldefrag env u1) =
           (if urldefrag env u1 \<noteq> [] \<and> allowed env (urldefrag env u1) then 1 else 0) \<and>
         (\<forall>u (st :: frontier). urldefrag env u \<in> seen st \<longrightarrow> enqueue env u st = st)"
proof -
  let ?r = "frontier_run env ops ([], frontier_init)"
  have "distinct ([] @ queue frontier_init)" "set ([] @ queue frontier_init) = seen frontier_init"
    by (simp_all add: frontier_init_def)
  then have inv: "distinct (entries ?r) \<and> set (entries ?r) = seen frontier_init \<union> admitted env ops"
    using frontier_run_inv by blast
  then have "set (entries ?r) = admitted env ops" by (simp add: frontier_init_def)
  moreover have "urldefrag env u1 \<in> admitted env ops \<longleftrightarrow>
      urldefrag env u1 \<noteq> [] \<and> allowed env (urldefrag env u1)"
    using assms(1) by (auto simp: admitted_def)
  ultimately show ?thesis using inv by (simp add: count_list_distinct enqueue_noop)
qed

theorem enqueue_at_most_once_witness:
  "count_list
     (entries (frontier_run sample_env
        [Enqueue ''https://www.focode.org/focode/a#x'', Popleft,
         Enqueue ''https://www.focode.org/focode/a#y'']
        ([], frontier_init)))
     ''https://www.focode.org/focode/a'' = 1"
proof -
  have d: "urldefrag sample_env ''https://www.focode.org/focode/a#x'' = ''https://www.focode.org/focode/a''"
    "urldefrag sample_env ''https://www.focode.org/focode/a#y'' = ''https://www.focode.org/focode/a''"
    by code_simp+
  have a: "allowed sample_env ''https://www.focode.org/focode/a''"
    by code_simp
  have "Enqueue ''https://www.focode.org/focode/a#x'' \<in> set [Enqueue ''https://www.focode.org/focode/a#x'', Popleft,
         Enqueue ''https://www.focode.org/focode/a#y'']"
    "Enqueue ''https://www.focode.org/focode/a#y'' \<in> set [Enqueue ''https://www.focode.org/focode/a#x'', Popleft,
         Enqueue ''https://www.focode.org/focode/a#y'']"
    by simp_all
  from enqueue_at_most_once [OF this, of sample_env] d a show ?thesis by simp
qed

section \<open>Admission\<close>

text \<open>
  Claim C2: a URL whose network location, in lower case, differs from that of the start
  URL is never added to the queue or to the seen-set by \<open>enqueue\<close>, whatever its path,
  the allow-pattern and the robots policy are: neither the path check nor the robots
  check is evaluated for it.  (The URL is the one \<open>enqueue\<close> tests, after \<open>urldefrag\<close>.)
  For every URL the checks evaluated are an initial segment of scheme, same-host,
  path, robots, in this order; every check evaluated before the last one passes, the
  answer is that of the last check evaluated, and it is the conjunction of the four checks.
\<close>

theorem other_host_never_enqueued:
  "(py_lower (url_netloc (urlparse env (urldefrag env u))) \<noteq>
      py_lower (url_netloc (urlparse env (start_url env))) \<longrightarrow>
    enqueue env u st = st \<and>
    PathCheck \<notin> set (fst (allowed_run env (urldefrag env u))) \<and>
    RobotsCheck \<notin> set (fst (allowed_run env (urldefrag env u)))) \<and>
   fst (allowed_run env v) \<noteq> [] \<and>
   prefix (fst (allowed_run env v)) [SchemeCheck, SameHostCheck, PathCheck, RobotsCheck] \<and>
   (\<forall>c \<in> set (butlast (fst (allowed_run env v))). check_passes env v c) \<and>
   allowed env v = check_passes env v (last (fst (allowed_run env v))) \<and>
   allowed env v =
     (\<forall>c \<in> set [SchemeCheck, SameHostCheck, PathCheck, RobotsCheck]. check_passes env v c)"
proof (intro conjI impI)
  assume h: "py_lower (url_netloc (urlparse env (urldefrag env u))) \<noteq>
      py_lower (url_netloc (urlparse env (start_url env)))"
  then have ns: "\<not> same_site env (urldefrag env u) (start_url env)"
    by (simp add: same_site_def)
  then have "\<not> allowed env (urldefrag env u)"
    by (simp add: allowed_def allowed_run_def)
  then show "enqueue env u st = st" by (simp add: enqueue_def Let_def)
  from ns show "PathCheck \<notin> set (fst (allowed_run env (urldefrag env u)))"
    by (simp add: allowed_run_def)
  from ns show "RobotsCheck \<notin> set (fst (allowed_run env (urldefrag env u)))"
    by (simp add: allowed_run_def)
next
  show "fst (allowed_run env v) \<noteq> []"
    by (simp add: allowed_run_def split: option.split)
  show "prefix (fst (allowed_run env v)) [SchemeCheck, SameHostCheck, PathCheck, RobotsCheck]"
    by (simp add: allowed_run_def split: option.split)
  show "\<forall>c \<in> set (butlast (fst (allowed_run env v))). check_passes env v c"
    by (simp add: allowed_run_def check_passes_def split: option.split)
  show "allowed env v = check_passes env v (last (fst (allowed_run env v)))"
    by (simp add: allowed_def allowed_run_def check_passes_def split: option.split)
  show "allowed env v =
     (\<forall>c \<in> set [SchemeCheck, SameHostCheck, PathCheck, RobotsCheck]. check_passes env v c)"
    by (auto simp add: allowed_def allowed_run_def check_passes_def split: option.split)
qed

theorem other_host_never_enqueued_witness:
  "enqueue sample_env ''https://OTHER.example/focode/a#x'' frontier_init = frontier_init \<and>
   fst (allowed_run sample_env ''https://www.focode.org/news'') = [SchemeCheck, SameHostCheck, PathCheck] \<and>
   \<not> allowed sample_env ''https://www.focode.org/news''"
proof -
  have h: "py_lower (url_netloc (urlparse sample_env (urldefrag sample_env ''https://OTHER.example/focode/a#x''))) \<noteq>
      py_lower (url_netloc (urlparse sample_env (start_url sample_env)))"
    by code_simp
  have t: "fst (allowed_run sample_env ''https://www.focode.org/news'') = [SchemeCheck, SameHostCheck, PathCheck]"
    by code_simp
  have p: "\<not> check_passes sample_env ''https://www.focode.org/news'' PathCheck"
    by code_simp
  from h t p other_host_never_enqueued [of sample_env "''https://OTHER.example/focode/a#x''" frontier_init "''https://www.focode.org/news''"]
  show ?thesis by simp
qed

section \<open>Seeding from sitemaps\<close>

lemma loc_urls_concat:
  "loc_urls (filter (\<lambda>l. xml_tag l = sm_tag ''loc'') ls) =
   concat (map (\<lambda>l. if xml_tag l = sm_tag ''loc'' \<and> truthy (xml_text l)
                      then [py_strip (the (xml_text l))] else []) ls)"
  by (induction ls) (simp_all add: loc_urls_def)

lemma loc_urls_append: "loc_urls (xs @ ys) = loc_urls xs @ loc_urls ys"
  by (simp add: loc_urls_def)

lemma locs_of_Nil: "locs_of kind [] = []"
  by (simp add: locs_of_def loc_urls_def)

lemma locs_of_append: "locs_of kind (xs @ ys) = locs_of kind xs @ locs_of kind ys"
  by (simp add: locs_of_def loc_urls_append)

lemma locs_of_Cons:
  "locs_of kind (c # es) =
     (if xml_tag c = sm_tag kind
      then concat (map (\<lambda>l. if xml_tag l = sm_tag ''loc'' \<and> truthy (xml_text l)
                              then [py_strip (the (xml_text l))] else []) (xml_children c))
      else []) @ locs_of kind es"
  by (simp add: locs_of_def loc_urls_append loc_urls_concat)

lemma locs_of_concat: "locs_of kind (concat xss) = concat (map (locs_of kind) xss)"
  by (induction xss) (simp_all add: locs_of_Nil locs_of_append)

lemma locs_of_descendants: "locs_of kind (xml_descendants doc) = spec_locs kind doc"
proof (induction doc)
  case (Elem t x cs)
  have "map (locs_of kind) (map (\<lambda>c. c # xml_descendants c) cs) =
        map (\<lambda>c. (if xml_tag c = sm_tag kind
          then concat (map (\<lambda>l. if xml_tag l = sm_tag ''loc'' \<and> truthy (xml_text l)
                                  then [py_strip (the (xml_text l))] else [])
                        (xml_children c))
          else []) @ spec_locs kind c) cs"
    using Elem by (simp add: locs_of_Cons)
  then show ?case by (simp add: locs_of_concat del: map_map)
qed

lemma parse_is_spec_entries: "parse_sitemap_urls (w_fromstring w) body = spec_entries w body"
  using locs_of_descendants
  by (simp add: parse_sitemap_urls_def spec_entries_def findall_locs_def locs_of_def split: option.split)

lemma run_steps_append:
  "run_steps env w (xs @ ys) st =
     (case run_steps env w xs st of
        Abandoned st' \<Rightarrow> Abandoned st'
      | Completed st' \<Rightarrow> run_steps env w ys st')"
proof (induction xs arbitrary: st)
  case Nil
  show ?case by simp
next
  case (Cons x xs)
  show ?case
  proof (cases x)
    case (FetchStep u)
    with Cons show ?thesis by simp
  next
    case (EnqueueStep u)
    with Cons show ?thesis by (simp split: option.split)
  qed
qed

lemma enqueue_all_steps: "enqueue_all env w vs st = run_steps env w (map EnqueueStep vs) st"
  by (induction vs arbitrary: st) (simp_all split: option.split)

lemma seed_urls_steps:
  "seed_urls env w urls st = run_steps env w (concat (map (entry_steps w) urls)) st"
proof (induction urls arbitrary: st)
  case Nil
  show ?case by simp
next
  case (Cons u us)
  show ?case
  proof (cases "endswith u ''.xml''")
    case False
    then have e: "entry_steps w u = [EnqueueStep u]" by (simp add: entry_steps_def)
    show ?thesis using False Cons by (simp add: e split: option.split)
  next
    case True
    show ?thesis
    proof (cases "w_http w u")
      case None
      then have e: "entry_steps w u = [FetchStep u]" using True by (simp add: entry_steps_def)
      show ?thesis using True None by (simp add: e run_steps_append)
    next
      case (Some nxml)
      then have e: "entry_steps w u = FetchStep u # map EnqueueStep (spec_entries w nxml)"
        using True by (simp add: entry_steps_def)
      show ?thesis using True Some Cons
        by (simp add: e run_steps_append enqueue_all_steps parse_is_spec_entries
            split: seed_result.split)
    qed
  qed
qed

lemma enqueue_try_enqueue:
  "\<not> w_defrag_raises w u \<Longrightarrow> \<not> w_allowed_raises w (urldefrag env u) \<Longrightarrow>
   enqueue_try env w u st = Some (enqueue env u st)"
  by (simp add: enqueue_try_def enqueue_def Let_def)

lemma enqueue_try_fetched: "enqueue_try env w u st = Some st' \<Longrightarrow> fetched st' = fetched st"
  by (auto simp: enqueue_try_def Let_def split: if_splits)

lemma run_steps_fetched:
  "set (fetched (seed_state (run_steps env w steps st))) \<subseteq>
     set (fetched st) \<union> {u. FetchStep u \<in> set steps}"
proof (induction steps arbitrary: st)
  case Nil
  show ?case by simp
next
  case (Cons x steps)
  show ?case
  proof (cases x)
    case (FetchStep u)
    show ?thesis using Cons [of "st\<lparr>fetched := fetched st @ [u]\<rparr>"] FetchStep by auto
  next
    case (EnqueueStep u)
    show ?thesis
    proof (cases "enqueue_try env w u st")
      case None
      then show ?thesis using EnqueueStep by simp
    next
      case (Some st')
      then have "fetched st' = fetched st" by (rule enqueue_try_fetched)
      with Cons [of st'] Some EnqueueStep show ?thesis by auto
    qed
  qed
qed

lemma fetch_steps_of_sitemap:
  "FetchStep u \<in> set (sitemap_steps w sm) \<Longrightarrow>
   u = sm \<or> (\<exists>xml. w_http w sm = Some xml \<and> u \<in> set (spec_entries w xml) \<and> endswith u ''.xml'')"
  by (auto simp: sitemap_steps_def entry_steps_def split: option.splits if_splits)

text \<open>
  The claim C5 as it is written has every entry of a sitemap index fetched and parsed as
  a sitemap.  The index of the sample site has the root \<open>sitemapindex\<close> and two
  entries; the entry that does not end in \<open>.xml\<close> is never fetched and is enqueued as
  a page.
\<close>

theorem sitemap_index_entry_counterexample:
  "endswith (xml_tag (the (sample_fromstring sample_index_xml))) ''sitemapindex'' \<and>
   parse_sitemap_urls sample_fromstring sample_index_xml =
     [''https://www.focode.org/posts.xml'', ''https://www.focode.org/focode/sitemap-pages''] \<and>
   fetched (seed_sitemap sample_env sample_world
              ''https://www.focode.org/sitemap_index.xml'' seeding_init) =
     [''https://www.focode.org/sitemap_index.xml'', ''https://www.focode.org/posts.xml''] \<and>
   queue (seed_sitemap sample_env sample_world
            ''https://www.focode.org/sitemap_index.xml'' seeding_init) =
     [''https://www.focode.org/focode/a'', ''https://www.focode.org/focodemag/b'',
      ''https://www.focode.org/focode/sitemap-pages'']"
  by code_simp

text \<open>
  Claim C5, amended: sitemap parsing recognizes the document by the end of the root
  element's tag, \<open>sitemapindex\<close> or \<open>urlset\<close>, and returns the \<open>loc\<close> entries of
  either.  The crawl fetches a sitemap and handles its entries in order, each by its own
  URL, whatever the root was: an entry that ends in \<open>.xml\<close> is fetched and parsed once as
  a sitemap and the entries of that document are passed to \<open>enqueue\<close>, with no further
  fetch; any other entry is passed to \<open>enqueue\<close> directly as a page URL.  The first
  fetch or \<open>enqueue\<close> that raises ends the work on that sitemap: what was enqueued
  before is kept and the remaining entries are skipped.  So nothing is fetched but the
  sitemap and those of its entries that end in \<open>.xml\<close>.  Where the library does not
  raise, passing a URL to \<open>enqueue\<close> is the \<open>enqueue\<close> of the frontier.
\<close>

theorem seed_sitemap_steps:
  "seed_sitemap env w sm st = seed_state (run_steps env w (sitemap_steps w sm) st) \<and>
   set (fetched (seed_sitemap env w sm st)) \<subseteq>
     set (fetched st) \<union> {sm} \<union>
     {u. \<exists>xml. w_http w sm = Some xml \<and> u \<in> set (spec_entries w xml) \<and> endswith u ''.xml''} \<and>
   (\<not> w_defrag_raises w u \<and> \<not> w_allowed_raises w (urldefrag env u) \<longrightarrow>
      enqueue_try env w u st' = Some (enqueue env u st'))"
proof (intro conjI)
  show eq: "seed_sitemap env w sm st = seed_state (run_steps env w (sitemap_steps w sm) st)"
    by (simp add: seed_sitemap_def seed_sitemap_body_def sitemap_steps_def seed_urls_steps
        parse_is_spec_entries split: option.split)
  show "set (fetched (seed_sitemap env w sm st)) \<subseteq>
     set (fetched st) \<union> {sm} \<union>
     {u. \<exists>xml. w_http w sm = Some xml \<and> u \<in> set (spec_entries w xml) \<and> endswith u ''.xml''}"
    unfolding eq using run_steps_fetched [of env w "sitemap_steps w sm" st] fetch_steps_of_sitemap [of _ w sm]
    by blast
  show "\<not> w_defrag_raises w u \<and> \<not> w_allowed_raises w (urldefrag env u) \<longrightarrow>
      enqueue_try env w u st' = Some (enqueue env u st')"
    by (simp add: enqueue_try_enqueue)
qed

theorem seed_sitemap_steps_witness:
  "seed_sitemap sample_env sample_world ''https://www.focode.org/sitemap_index.xml'' seeding_init =
     \<lparr>queue = [''https://www.focode.org/focode/a'', ''https://www.focode.org/focodemag/b'',
               ''https://www.focode.org/focode/sitemap-pages''],
      seen = {''https://www.focode.org/focode/a'', ''https://www.focode.org/focodemag/b'',
              ''https://www.focode.org/focode/sitemap-pages''},
      fetched = [''https://www.focode.org/sitemap_index.xml'', ''https://www.focode.org/posts.xml'']\<rparr> \<and>
   seed_sitemap sample_env sample_world ''https://www.focode.org/sitemap.xml'' seeding_init =
     \<lparr>queue = [], seen = {},
      fetched = [''https://www.focode.org/sitemap.xml'', ''https://www.focode.org/missing.xml'']\<rparr> \<and>
   seed_sitemap sample_env sample_world ''https://www.focode.org/news.xml'' seeding_init =
     \<lparr>queue = [''https://www.focode.org/focode/c''], seen = {''https://www.focode.org/focode/c''},
      fetched = [''https://www.focode.org/news.xml'']\<rparr>"
proof -
  have 1: "seed_state (run_steps sample_env sample_world
        (sitemap_steps sample_world ''https://www.focode.org/sitemap_index.xml'') seeding_init) =
     \<lparr>queue = [''https://www.focode.org/focode/a'', ''https://www.focode.org/focodemag/b'',
               ''https://www.focode.org/focode/sitemap-pages''],
      seen = {''https://www.focode.org/focode/a'', ''https://www.focode.org/focodemag/b'',
              ''https://www.focode.org/focode/sitemap-pages''},
      fetched = [''https://www.focode.org/sitemap_index.xml'', ''https://www.focode.org/posts.xml'']\<rparr>"
    by code_simp
  have 2: "seed_state (run_steps sample_env sample_world
        (sitemap_steps sample_world ''https://www.focode.org/sitemap.xml'') seeding_init) =
     \<lparr>queue = [], seen = {},
      fetched = [''https://www.focode.org/sitemap.xml'', ''https://www.focode.org/missing.xml'']\<rparr>"
    by code_simp
  have 3: "seed_state (run_steps sample_env sample_world
        (sitemap_steps sample_world ''https://www.focode.org/news.xml'') seeding_init) =
     \<lparr>queue = [''https://www.focode.org/focode/c''], seen = {''https://www.focode.org/focode/c''},
      fetched = [''https://www.focode.org/news.xml'']\<rparr>"
    by code_simp
  from seed_sitemap_steps [of sample_env sample_world "''https://www.focode.org/sitemap_index.xml''" seeding_init, THEN conjunct1]
    seed_sitemap_steps [of sample_env sample_world "''https://www.focode.org/sitemap.xml''" seeding_init, THEN conjunct1]
    seed_sitemap_steps [of sample_env sample_world "''https://www.focode.org/news.xml''" seeding_init, THEN conjunct1]
  show ?thesis unfolding 1 2 3 by blast
qed

section \<open>Static fetch: attempts and pauses\<close>

lemma backoff_base_eq: "0.8 * 2 ^ k = backoff_base k"
  by (induction k) simp_all

lemma backoff_delay_eq: "backoff_delay rnd k = backoff_base k + 0.2 * rnd k"
  unfolding backoff_delay_def backoff_base_eq by simp

lemma seg_append: "(if int a < retries then tr @ [Get a, Sleep (backoff_delay rnd a)] else tr @ [Get a]) = tr @ seg rnd retries a"
  by (simp add: seg_def)

lemma seg_early: "int k < retries \<Longrightarrow> seg rnd retries k = [Get k, Sleep (backoff_base k + 0.2 * rnd k)]"
  by (simp add: seg_def backoff_delay_eq)

lemma concat_seg_early:
  "int a \<le> retries \<Longrightarrow> concat (map (seg rnd retries) [0..<a]) =
     concat (map (\<lambda>k. [Get k, Sleep (backoff_base k + 0.2 * rnd k)]) [0..<a])"
  by (induction a) (simp_all add: seg_early)

lemma fetch_attempts_inv:
  assumes "0 \<le> retries" and "m = nat (retries + 1)"
  shows "a \<le> m \<Longrightarrow> tr = concat (map (seg rnd retries) [0..<a]) \<Longrightarrow> (\<forall>k<a. isl (get k)) \<Longrightarrow>
     (a = 0 \<and> le = None \<or> 0 < a \<and> le = Some (projl (get (a - 1)))) \<Longrightarrow>
     \<exists>n. 1 \<le> n \<and> n \<le> m \<and>
         fst (fetch_attempts get rnd url retries [a..<m] le tr) = attempts_trace rnd n \<and>
         (\<forall>k<n - 1. isl (get k)) \<and>
         (case snd (fetch_attempts get rnd url retries [a..<m] le tr) of
            Inr r \<Rightarrow> get (n - 1) = Inr r
          | Inl e \<Rightarrow> n = m \<and> (\<exists>e'. get (n - 1) = Inl e' \<and>
                e = RuntimeError (''Fetch failed for '' @ url @ '': '' @ err_str e')))"
proof (induction "m - a" arbitrary: a tr le)
  case 0
  then have am: "a = m" by simp
  from assms have m1: "1 \<le> m" "int (m - 1) = retries" by simp_all
  with am 0 have le: "le = Some (projl (get (m - 1)))" and isl: "isl (get (m - 1))" by auto
  have "[0..<m] = [0..<m - 1] @ [m - 1]" using m1
    by (metis Suc_diff_1 less_eq_Suc_le upt_Suc_append zero_le One_nat_def)
  then have "tr = concat (map (seg rnd retries) [0..<m - 1]) @ seg rnd retries (m - 1)"
    using 0 am by simp
  moreover have "seg rnd retries (m - 1) = [Get (m - 1)]" using m1 by (simp add: seg_def)
  moreover have "int (m - 1) \<le> retries" using m1 by simp
  ultimately have tr: "tr = attempts_trace rnd m"
    by (simp add: attempts_trace_def concat_seg_early)
  from isl obtain e' where e': "get (m - 1) = Inl e'" by (cases "get (m - 1)") auto
  show ?case
    apply (rule exI [of _ m])
    using am m1 tr le e' 0 by simp
next
  case (Suc d)
  then have lt: "a < m" by simp
  then have upt: "[a..<m] = a # [Suc a..<m]" by (simp add: upt_conv_Cons)
  from lt assms have ar: "int a \<le> retries" by simp
  show ?case
  proof (cases "get a")
    case (Inr r)
    have "tr @ [Get a] = attempts_trace rnd (Suc a)"
      using Suc.prems(2) ar by (simp add: attempts_trace_def concat_seg_early)
    then show ?thesis
      apply (intro exI [of _ "Suc a"])
      using Inr lt upt Suc.prems by simp
  next
    case (Inl e)
    let ?tr = "tr @ seg rnd retries a"
    have 1: "d = m - Suc a" using Suc by simp
    have 2: "Suc a \<le> m" using lt by simp
    have 3: "?tr = concat (map (seg rnd retries) [0..<Suc a])" using Suc.prems(2) by simp
    have 4: "\<forall>k<Suc a. isl (get k)" using Suc.prems(3) Inl by (auto simp: less_Suc_eq)
    have 5: "Suc a = 0 \<and> Some e = None \<or> 0 < Suc a \<and> Some e = Some (projl (get (Suc a - 1)))"
      using Inl by simp
    from Suc.hyps(1) [OF 1 2 3 4 5]
    show ?thesis using Inl upt by (simp add: seg_append)
  qed
qed

text \<open>
  Claim C6: for a retry bound \<open>retries\<close> (a count, so not negative) and every URL, the
  static fetch makes \<open>n\<close> attempts, one initial attempt and at most \<open>retries\<close> further
  ones, and sleeps between two attempts, after attempt \<open>k\<close> for a base delay that is 0.8
  seconds at first and doubles with each attempt, plus an offset that is below 0.2
  seconds when the random number is in \<open>[0, 1)\<close>.  All attempts before the last one
  failed.  It returns the body and final URL of the last attempt when that succeeded;
  it raises the error ``Fetch failed'', with the message of the last attempt's error,
  only when all \<open>retries + 1\<close> attempts have failed.
\<close>

theorem fetch_retries_then_fails:
  assumes "0 \<le> retries"
  shows "\<exists>n. 1 \<le> n \<and> int n \<le> retries + 1 \<and>
     fst (fetch get rnd url retries) = attempts_trace rnd n \<and>
     (\<forall>k<n - 1. isl (get k)) \<and>
     (case snd (fetch get rnd url retries) of
        Inr r \<Rightarrow> get (n - 1) = Inr r
      | Inl e \<Rightarrow> int n = retries + 1 \<and>
          (\<exists>e'. get (n - 1) = Inl e' \<and>
             e = RuntimeError (''Fetch failed for '' @ url @ '': '' @ err_str e'))) \<and>
     (\<forall>k. 0 \<le> rnd k \<and> rnd k < 1 \<longrightarrow>
        backoff_base k \<le> backoff_delay rnd k \<and> backoff_delay rnd k < backoff_base k + 0.2)"
proof -
  define m where "m = nat (retries + 1)"
  have "\<exists>n. 1 \<le> n \<and> n \<le> m \<and>
         fst (fetch_attempts get rnd url retries [0..<m] None []) = attempts_trace rnd n \<and>
         (\<forall>k<n - 1. isl (get k)) \<and>
         (case snd (fetch_attempts get rnd url retries [0..<m] None []) of
            Inr r \<Rightarrow> get (n - 1) = Inr r
          | Inl e \<Rightarrow> n = m \<and> (\<exists>e'. get (n - 1) = Inl e' \<and>
                e = RuntimeError (''Fetch failed for '' @ url @ '': '' @ err_str e')))"
    by (rule fetch_attempts_inv [OF assms m_def]) simp_all
  then obtain n where n: "1 \<le> n" "n \<le> m"
      "fst (fetch get rnd url retries) = attempts_trace rnd n" "\<forall>k<n - 1. isl (get k)"
      "case snd (fetch get rnd url retries) of
            Inr r \<Rightarrow> get (n - 1) = Inr r
          | Inl e \<Rightarrow> n = m \<and> (\<exists>e'. get (n - 1) = Inl e' \<and>
                e = RuntimeError (''Fetch failed for '' @ url @ '': '' @ err_str e'))"
    unfolding fetch_def m_def by blast
  from assms have mr: "int m = retries + 1" by (simp add: m_def)
  have b: "\<forall>k. 0 \<le> rnd k \<and> rnd k < 1 \<longrightarrow>
        backoff_base k \<le> backoff_delay rnd k \<and> backoff_delay rnd k < backoff_base k + 0.2"
    by (simp add: backoff_delay_eq)
  have c: "case snd (fetch get rnd url retries) of
        Inr r \<Rightarrow> get (n - 1) = Inr r
      | Inl e \<Rightarrow> int n = retries + 1 \<and>
          (\<exists>e'. get (n - 1) = Inl e' \<and>
             e = RuntimeError (''Fetch failed for '' @ url @ '': '' @ err_str e'))"
    using n(5) mr by (auto split: sum.splits)
  have "int n \<le> retries + 1" using n(2) mr by simp
  with n(1,3,4) b c show ?thesis by blast
qed

theorem fetch_retries_then_fails_witness:
  "(0::int) \<le> 2 \<and>
   fetch sample_get (\<lambda>k. 1 / 2) ''https://www.focode.org/focode'' 2 =
     ([Get 0, Sleep 0.9, Get 1, Sleep 1.7, Get 2], Inr (''<html></html>'', ''https://www.focode.org/focode'')) \<and>
   fetch sample_get (\<lambda>k. 1 / 2) ''u'' 1 =
     ([Get 0, Sleep 0.9, Get 1], Inl (RuntimeError ''Fetch failed for u: timed out'')) \<and>
   (\<exists>n. 1 \<le> n \<and> int n \<le> 2 + 1 \<and>
     fst (fetch sample_get (\<lambda>k. 1 / 2) ''u'' 2) = attempts_trace (\<lambda>k. 1 / 2) n)"
proof -
  have h: "(0::int) \<le> 2" by simp
  have u3: "[0..<3::nat] = [0, 1, 2]" by code_simp
  have u2: "[0..<2::nat] = [0, 1]" by code_simp
  have a: "fetch sample_get (\<lambda>k. 1 / 2) ''https://www.focode.org/focode'' 2 =
     ([Get 0, Sleep 0.9, Get 1, Sleep 1.7, Get 2], Inr (''<html></html>'', ''https://www.focode.org/focode''))"
    by (simp add: fetch_def sample_get_def backoff_delay_def u3)
  have b: "fetch sample_get (\<lambda>k. 1 / 2) ''u'' 1 =
     ([Get 0, Sleep 0.9, Get 1], Inl (RuntimeError ''Fetch failed for u: timed out''))"
    by (simp add: fetch_def sample_get_def backoff_delay_def u2)
  from fetch_retries_then_fails [OF h, of sample_get "\<lambda>k. 1 / 2" "''u''"]
  have "\<exists>n. 1 \<le> n \<and> int n \<le> 2 + 1 \<and>
     fst (fetch sample_get (\<lambda>k. 1 / 2) ''u'' 2) = attempts_trace (\<lambda>k. 1 / 2) n"
    by blast
  with h a b show ?thesis by blast
qed

section \<open>Dates in slugs: results\<close>

lemma search_skip: "\<not> list_all is_digit (take 6 (c # cs)) \<Longrightarrow> search_ddmmyy (c # cs) = search_ddmmyy cs"
  by (simp only: search_ddmmyy.simps simp_thms if_False)

lemma search_first_gen:
  "\<forall>i<length pre. \<not> list_all is_digit (take 6 (drop i (pre @ rest))) \<Longrightarrow>
   search_ddmmyy (pre @ rest) = search_ddmmyy rest"
proof (induction pre)
  case Nil
  then show ?case by simp
next
  case (Cons p ps)
  from Cons.prems have "\<not> list_all is_digit (take 6 (drop 0 ((p # ps) @ rest)))"
    by (metis length_greater_0_conv list.distinct(1))
  then have 0: "\<not> list_all is_digit (take 6 (p # (ps @ rest)))" by simp
  have "\<forall>i<length ps. \<not> list_all is_digit (take 6 (drop i (ps @ rest)))"
  proof (intro allI impI)
    fix i assume "i < length ps"
    then have "Suc i < length (p # ps)" by simp
    with Cons.prems have "\<not> list_all is_digit (take 6 (drop (Suc i) ((p # ps) @ rest)))"
      by blast
    then show "\<not> list_all is_digit (take 6 (drop i (ps @ rest)))" by simp
  qed
  with Cons.IH have "search_ddmmyy (ps @ rest) = search_ddmmyy rest" by blast
  with search_skip [OF 0] show ?case by simp
qed

lemma search_first:
  assumes "\<forall>i<length pre. \<not> list_all is_digit (take 6 (drop i (pre @ [a,b,c,d,e,f] @ post)))"
    and "list_all is_digit [a,b,c,d,e,f]"
  shows "search_ddmmyy (pre @ [a,b,c,d,e,f] @ post) = Some ([a,b],[c,d],[e,f])"
proof -
  have "search_ddmmyy ([a,b,c,d,e,f] @ post) = Some ([a,b],[c,d],[e,f])"
    using assms(2) by simp
  with search_first_gen [OF assms(1)] show ?thesis by simp
qed

lemma search_none:
  "\<forall>i<length s. \<not> (6 \<le> length (drop i s) \<and> list_all is_digit (take 6 (drop i s))) \<Longrightarrow> search_ddmmyy s = None"
proof (induction s)
  case Nil
  then show ?case by simp
next
  case (Cons c cs)
  from Cons.prems have 0: "\<not> (6 \<le> length (c # cs) \<and> list_all is_digit (take 6 (c # cs)))"
    by (metis drop0 length_greater_0_conv list.distinct(1))
  have "\<forall>i<length cs. \<not> (6 \<le> length (drop i cs) \<and> list_all is_digit (take 6 (drop i cs)))"
  proof (intro allI impI)
    fix i assume "i < length cs"
    then have "Suc i < length (c # cs)" by simp
    with Cons.prems have "\<not> (6 \<le> length (drop (Suc i) (c # cs)) \<and> list_all is_digit (take 6 (drop (Suc i) (c # cs))))"
      by blast
    then show "\<not> (6 \<le> length (drop i cs) \<and> list_all is_digit (take 6 (drop i cs)))" by simp
  qed
  with Cons.IH have "search_ddmmyy cs = None" by blast
  with 0 show ?case by simp
qed

lemma int_of_digits2: "int_of_digits [a, b] = 10 * digit_val a + digit_val b"
  by (simp add: int_of_digits_def)

lemma digit_val_range: "is_digit c \<Longrightarrow> 0 \<le> digit_val c \<and> digit_val c \<le> 9"
  by (auto simp: is_digit_def digit_val_def Let_def)

text \<open>
  Claim C7: \<open>parse_date_from_slug\<close> gives the ISO date 2024-03-15 on
  \<open>article-150324-notes\<close> and nothing on \<open>no-date-here\<close>.  In general, when the
  leftmost run of six digits of the slug is \<open>DDMMYY\<close>, the year is \<open>2000 + YY\<close> for
  \<open>YY < 70\<close> and \<open>1900 + YY\<close> otherwise, the result is the ISO form of that date when the
  month is from 1 to 12 and the day from 1 to the length of that month, and nothing
  otherwise; a slug without six digits in a row gives nothing.
\<close>

theorem parse_date_from_slug_ddmmyy:
  "parse_date_from_slug ''article-150324-notes'' = Some ''2024-03-15'' \<and>
   parse_date_from_slug ''no-date-here'' = None \<and>
   (list_all is_digit [a, b, c, d, e, f] \<and>
    (\<forall>i<length pre. \<not> list_all is_digit (take 6 (drop i (pre @ [a, b, c, d, e, f] @ post)))) \<longrightarrow>
    parse_date_from_slug (pre @ [a, b, c, d, e, f] @ post) =
      (let dd = 10 * digit_val a + digit_val b;
           mm = 10 * digit_val c + digit_val d;
           yy = 10 * digit_val e + digit_val f;
           year = (if yy < 70 then 2000 + yy else 1900 + yy)
       in if 1 \<le> mm \<and> mm \<le> 12 \<and> 1 \<le> dd \<and> dd \<le> days_in_month year mm
          then Some (pad4 year @ ''-'' @ pad2 mm @ ''-'' @ pad2 dd)
          else None)) \<and>
   ((\<forall>i<length slug. \<not> (6 \<le> length (drop i slug) \<and> list_all is_digit (take 6 (drop i slug)))) \<longrightarrow>
    parse_date_from_slug slug = None)"
proof (intro conjI impI)
  show "parse_date_from_slug ''article-150324-notes'' = Some ''2024-03-15''" by code_simp
  show "parse_date_from_slug ''no-date-here'' = None" by code_simp
next
  assume h: "list_all is_digit [a, b, c, d, e, f] \<and>
    (\<forall>i<length pre. \<not> list_all is_digit (take 6 (drop i (pre @ [a, b, c, d, e, f] @ post))))"
  then have s: "search_ddmmyy (pre @ [a, b, c, d, e, f] @ post) = Some ([a, b], [c, d], [e, f])"
    using search_first by blast
  define dd where "dd = 10 * digit_val a + digit_val b"
  define mm where "mm = 10 * digit_val c + digit_val d"
  define yy where "yy = 10 * digit_val e + digit_val f"
  define year where "year = (if yy < 70 then 2000 + yy else 1900 + yy)"
  from h have "0 \<le> digit_val e \<and> digit_val e \<le> 9" "0 \<le> digit_val f \<and> digit_val f \<le> 9"
    using digit_val_range by simp_all
  then have "0 \<le> yy \<and> yy \<le> 99" unfolding yy_def by arith
  then have y: "1 \<le> year \<and> year \<le> 9999" unfolding year_def by simp
  then have dn: "date_new year mm dd =
      (if 1 \<le> mm \<and> mm \<le> 12 \<and> 1 \<le> dd \<and> dd \<le> days_in_month year mm
       then Some (year, mm, dd) else None)"
    by (simp add: date_new_def)
  have p: "parse_date_from_slug (pre @ [a, b, c, d, e, f] @ post) =
      (case date_new year mm dd of None \<Rightarrow> None | Some dt \<Rightarrow> Some (isoformat dt))"
    unfolding parse_date_from_slug_def s
    by (simp add: int_of_digits2 Let_def year_def yy_def mm_def dd_def)
  show "parse_date_from_slug (pre @ [a, b, c, d, e, f] @ post) =
      (let dd = 10 * digit_val a + digit_val b;
           mm = 10 * digit_val c + digit_val d;
           yy = 10 * digit_val e + digit_val f;
           year = (if yy < 70 then 2000 + yy else 1900 + yy)
       in if 1 \<le> mm \<and> mm \<le> 12 \<and> 1 \<le> dd \<and> dd \<le> days_in_month year mm
          then Some (pad4 year @ ''-'' @ pad2 mm @ ''-'' @ pad2 dd)
          else None)"
    unfolding p dn Let_def
    by (simp add: isoformat_def year_def yy_def mm_def dd_def)
next
  assume "\<forall>i<length slug. \<not> (6 \<le> length (drop i slug) \<and> list_all is_digit (take 6 (drop i slug)))"
  then have "search_ddmmyy slug = None" by (rule search_none)
  then show "parse_date_from_slug slug = None" by (simp add: parse_date_from_slug_def)
qed

theorem parse_date_from_slug_ddmmyy_witness:
  "parse_date_from_slug ''post-310224-x'' = None \<and> parse_date_from_slug ''post-010170'' = Some ''1970-01-01''
   \<and> parse_date_from_slug ''abc'' = None"
proof -
  have 1: "list_all is_digit ''310224'' \<and>
    (\<forall>i<length ''post-''. \<not> list_all is_digit (take 6 (drop i (''post-'' @ ''310224'' @ ''-x''))))"
    by (simp add: is_digit_def All_less_Suc)
  have 2: "list_all is_digit ''010170'' \<and>
    (\<forall>i<length ''post-''. \<not> list_all is_digit (take 6 (drop i (''post-'' @ ''010170'' @ []))))"
    by (simp add: is_digit_def All_less_Suc)
  have 3: "\<forall>i<length ''abc''. \<not> (6 \<le> length (drop i ''abc'') \<and> list_all is_digit (take 6 (drop i ''abc'')))"
    by auto
  from 1 parse_date_from_slug_ddmmyy [of "CHR ''3''" "CHR ''1''" "CHR ''0''" "CHR ''2''" "CHR ''2''" "CHR ''4''" "''post-''" "''-x''" "''abc''"]
  have a: "parse_date_from_slug ''post-310224-x'' = None"
    by (simp add: digit_val_def days_in_month_def is_leap_def)
  from 2 3 parse_date_from_slug_ddmmyy [of "CHR ''0''" "CHR ''1''" "CHR ''0''" "CHR ''1''" "CHR ''7''" "CHR ''0''" "''post-''" "[]" "''abc''"]
  have b: "parse_date_from_slug ''post-010170'' = Some ''1970-01-01'' \<and> parse_date_from_slug ''abc'' = None"
    by (simp add: digit_val_def days_in_month_def is_leap_def pad4_def pad2_def digit_char_def)
  from a b show ?thesis by simp
qed

section \<open>Whitespace normalization is idempotent\<close>

lemma sub_hspace_hd: "\<not> is_hspace c \<Longrightarrow> sub_hspace (c # cs) = c # sub_hspace cs"
  by simp

lemma hs_norm_Cons: "hs_norm (c # cs) = ((is_hspace c \<longrightarrow> c = CHR '' '' \<and> (cs = [] \<or> \<not> is_hspace (hd cs))) \<and> hs_norm cs)"
  by (cases cs) auto

lemma sub_hspace_Nil_iff: "sub_hspace s = [] \<longleftrightarrow> s = []"
  by (cases s) auto

lemma hd_sub_hspace: "s \<noteq> [] \<Longrightarrow> \<not> is_hspace (hd s) \<Longrightarrow> hd (sub_hspace s) = hd s"
  by (cases s) auto

lemma hd_dropWhile_not: "dropWhile P xs \<noteq> [] \<Longrightarrow> \<not> P (hd (dropWhile P xs))"
  using hd_dropWhile by blast

lemma hs_norm_sub_hspace: "hs_norm (sub_hspace s)"
proof (induction s rule: sub_hspace.induct)
  case 1
  show ?case by simp
next
  case (2 c cs)
  show ?case
  proof (cases "is_hspace c")
    case True
    let ?r = "dropWhile is_hspace cs"
    have "sub_hspace ?r = [] \<or> \<not> is_hspace (hd (sub_hspace ?r))"
      by (metis hd_dropWhile_not hd_sub_hspace sub_hspace_Nil_iff)
    with True 2 show ?thesis by (simp add: hs_norm_Cons)
  next
    case False
    with 2 show ?thesis by (simp add: hs_norm_Cons)
  qed
qed

lemma sub_hspace_fix: "hs_norm t \<Longrightarrow> sub_hspace t = t"
proof (induction t rule: hs_norm.induct)
  case (3 c d cs)
  then show ?case by auto
qed auto

lemma nl_norm_Cons: "nl_norm (c # cs) = ((is_nl c \<longrightarrow> length (takeWhile is_nl cs) < 2) \<and> nl_norm cs)"
  by (induction cs rule: nl_norm.induct) (auto)


lemma hd_sub_newlines: "s \<noteq> [] \<Longrightarrow> \<not> is_nl (hd s) \<Longrightarrow> sub_newlines s \<noteq> [] \<and> hd (sub_newlines s) = hd s"
  by (cases s) auto

lemma takeWhile_sub_newlines_drop: "takeWhile is_nl (sub_newlines (dropWhile is_nl cs)) = []"
proof (cases "dropWhile is_nl cs = []")
  case True
  then show ?thesis by (simp del: dropWhile_eq_Nil_conv)
next
  case False
  then have "\<not> is_nl (hd (dropWhile is_nl cs))" by (rule hd_dropWhile_not)
  with False have "sub_newlines (dropWhile is_nl cs) \<noteq> [] \<and> \<not> is_nl (hd (sub_newlines (dropWhile is_nl cs)))"
    using hd_sub_newlines by metis
  then show ?thesis by (cases "sub_newlines (dropWhile is_nl cs)") auto
qed

lemma short_run: "length (takeWhile is_nl cs) < 2 \<Longrightarrow> takeWhile is_nl cs = [] \<or> takeWhile is_nl cs = [CHR 0x0A]"
proof -
  assume a: "length (takeWhile is_nl cs) < 2"
  have b: "\<forall>x \<in> set (takeWhile is_nl cs). x = CHR 0x0A"
    by (metis is_nl_def set_takeWhileD)
  show ?thesis
  proof (cases "takeWhile is_nl cs")
    case Nil then show ?thesis by simp
  next
    case (Cons x xs)
    with a have "xs = []" by simp
    with Cons b show ?thesis by simp
  qed
qed

lemma nl_norm_sub_newlines: "nl_norm (sub_newlines s)"
proof (induction s rule: sub_newlines.induct)
  case 1
  show ?case by simp
next
  case (2 c cs)
  let ?X = "sub_newlines (dropWhile is_nl cs)"
  have tw: "takeWhile is_nl ?X = []" by (rule takeWhile_sub_newlines_drop)
  show ?case
  proof (cases "is_nl c")
    case False
    with 2 show ?thesis by (simp add: nl_norm_Cons)
  next
    case True
    show ?thesis
    proof (cases "2 \<le> length (takeWhile is_nl cs)")
      case long: True
      with True 2 have "nl_norm ?X" by simp
      with True long tw show ?thesis by (simp add: nl_norm_Cons is_nl_def)
    next
      case short: False
      with True 2 have X: "nl_norm ?X" by simp
      from short have "takeWhile is_nl cs = [] \<or> takeWhile is_nl cs = [CHR 0x0A]"
        using short_run by simp
      then show ?thesis
      proof
        assume e: "takeWhile is_nl cs = []"
        with True short X tw show ?thesis by (simp add: nl_norm_Cons)
      next
        assume e: "takeWhile is_nl cs = [CHR 0x0A]"
        with True short X tw show ?thesis by (simp add: nl_norm_Cons is_nl_def)
      qed
    qed
  qed
qed


lemma nl_norm_append: "nl_norm (xs @ ys) \<Longrightarrow> nl_norm xs \<and> nl_norm ys"
proof (induction xs)
  case Nil
  then show ?case by simp
next
  case (Cons x xs)
  from Cons.prems have a: "is_nl x \<longrightarrow> length (takeWhile is_nl (xs @ ys)) < 2" and b: "nl_norm (xs @ ys)"
    by (simp_all add: nl_norm_Cons)
  have "length (takeWhile is_nl xs) \<le> length (takeWhile is_nl (xs @ ys))"
    by (induction xs) auto
  with a b Cons.IH show ?case by (auto simp: nl_norm_Cons)
qed

lemma hs_norm_append: "hs_norm (xs @ ys) \<Longrightarrow> hs_norm xs \<and> hs_norm ys"
proof (induction xs)
  case Nil
  then show ?case by simp
next
  case (Cons x xs)
  then show ?case by (cases xs) (auto simp: hs_norm_Cons)
qed

lemma sub_newlines_fix: "nl_norm t \<Longrightarrow> sub_newlines t = t"
proof (induction t rule: sub_newlines.induct)
  case 1
  show ?case by simp
next
  case (2 c cs)
  from 2(4) have run: "is_nl c \<longrightarrow> length (takeWhile is_nl cs) < 2" and cs: "nl_norm cs"
    by (simp_all add: nl_norm_Cons)
  show ?case
  proof (cases "is_nl c")
    case False
    with 2 cs show ?thesis by simp
  next
    case True
    with run have short: "\<not> 2 \<le> length (takeWhile is_nl cs)" by simp
    have "nl_norm (takeWhile is_nl cs @ dropWhile is_nl cs)" using cs by simp
    then have "nl_norm (dropWhile is_nl cs)" using nl_norm_append by blast
    with 2(2) True short have "sub_newlines (dropWhile is_nl cs) = dropWhile is_nl cs" by simp
    with True short show ?thesis by simp
  qed
qed

lemma hs_norm_skip: "\<forall>x \<in> set r. \<not> is_hspace x \<Longrightarrow> hs_norm (r @ X) = hs_norm X"
  by (induction r) (auto simp: hs_norm_Cons)

lemma nl_not_hspace: "is_nl c \<Longrightarrow> \<not> is_hspace c"
  by (auto simp: is_nl_def is_hspace_def)

lemma hd_sub_newlines_any: "cs \<noteq> [] \<Longrightarrow> sub_newlines cs \<noteq> [] \<and> hd (sub_newlines cs) = hd cs"
  by (cases cs) (auto simp: is_nl_def)

lemma hs_norm_sub_newlines: "hs_norm t \<Longrightarrow> hs_norm (sub_newlines t)"
proof (induction t rule: sub_newlines.induct)
  case 1
  show ?case by simp
next
  case (2 c cs)
  from 2(4) have cs: "hs_norm cs" by (simp add: hs_norm_Cons)
  show ?case
  proof (cases "is_nl c")
    case False
    with 2 cs have "hs_norm (sub_newlines cs)" by simp
    moreover have "cs \<noteq> [] \<longrightarrow> sub_newlines cs \<noteq> [] \<and> hd (sub_newlines cs) = hd cs"
      using hd_sub_newlines_any by blast
    moreover have "cs = [] \<longrightarrow> sub_newlines cs = []" by simp
    ultimately show ?thesis using False 2(4) by (auto simp: hs_norm_Cons)
  next
    case True
    have "hs_norm (takeWhile is_nl cs @ dropWhile is_nl cs)" using cs by simp
    then have d: "hs_norm (dropWhile is_nl cs)" using hs_norm_append by blast
    have r: "\<forall>x \<in> set (takeWhile is_nl cs). \<not> is_hspace x"
      by (meson nl_not_hspace set_takeWhileD)
    have c: "\<not> is_hspace c" using True by (rule nl_not_hspace)
    show ?thesis
    proof (cases "2 \<le> length (takeWhile is_nl cs)")
      case long: True
      with True 2(1) d have "hs_norm (sub_newlines (dropWhile is_nl cs))" by simp
      with True long show ?thesis by (simp add: hs_norm_Cons is_hspace_def)
    next
      case short: False
      with True 2(2) d have "hs_norm (sub_newlines (dropWhile is_nl cs))" by simp
      with r have "hs_norm (takeWhile is_nl cs @ sub_newlines (dropWhile is_nl cs))"
        by (simp add: hs_norm_skip)
      with True short c show ?thesis by (simp add: hs_norm_Cons)
    qed
  qed
qed

lemma py_strip_split: "\<exists>a b. t = a @ py_strip t @ b"
proof -
  let ?u = "dropWhile py_isspace t"
  have "t = takeWhile py_isspace t @ ?u" by simp
  moreover have "?u = rev (dropWhile py_isspace (rev ?u)) @ rev (takeWhile py_isspace (rev ?u))"
    by (metis rev_append rev_rev_ident takeWhile_dropWhile_id)
  ultimately show ?thesis unfolding py_strip_def by metis
qed

lemma py_strip_idem: "py_strip (py_strip t) = py_strip t"
proof -
  let ?u = "dropWhile py_isspace t"
  let ?w = "dropWhile py_isspace (rev ?u)"
  have u: "?u = [] \<or> \<not> py_isspace (hd ?u)" using hd_dropWhile_not by blast
  have w: "?w = [] \<or> \<not> py_isspace (hd ?w)" using hd_dropWhile_not by blast
  have "?w \<noteq> [] \<longrightarrow> last ?w = last (rev ?u)"
    by (metis append_Nil2 last_appendR takeWhile_dropWhile_id)
  moreover have "?w \<noteq> [] \<longrightarrow> ?u \<noteq> []" by (metis dropWhile.simps(1) rev.simps(1))
  ultimately have lw: "?w = [] \<or> \<not> py_isspace (last ?w)" using u by (metis last_rev)
  then have "rev ?w = [] \<or> \<not> py_isspace (hd (rev ?w))" by (metis hd_rev rev_is_Nil_conv)
  then have 1: "dropWhile py_isspace (rev ?w) = rev ?w" by (simp add: dropWhile_eq_self_iff)
  from w have 2: "dropWhile py_isspace ?w = ?w" by (simp add: dropWhile_eq_self_iff)
  show ?thesis unfolding py_strip_def using 1 2 by simp
qed

text \<open>
  Claim C8: whitespace normalization is idempotent: for every string \<open>s\<close>,
  normalizing the normalized string gives the normalized string again.
\<close>

theorem normalize_ws_idempotent: "normalize_ws (normalize_ws s) = normalize_ws s"
proof -
  let ?t = "sub_newlines (sub_hspace s)"
  have h: "hs_norm ?t" by (simp add: hs_norm_sub_hspace hs_norm_sub_newlines)
  have n: "nl_norm ?t" by (rule nl_norm_sub_newlines)
  obtain a b where ab: "?t = a @ py_strip ?t @ b" using py_strip_split by blast
  from h ab have "hs_norm (py_strip ?t)" by (metis hs_norm_append)
  then have 1: "sub_hspace (py_strip ?t) = py_strip ?t" by (rule sub_hspace_fix)
  from n ab have "nl_norm (py_strip ?t)" by (metis nl_norm_append)
  then have 2: "sub_newlines (py_strip ?t) = py_strip ?t" by (rule sub_newlines_fix)
  show ?thesis unfolding normalize_ws_def using 1 2 py_strip_idem by simp
qed

section \<open>Release of the browser session\<close>

lemma crawl_loop_gotos:
  "list_all is_goto tr0 \<Longrightarrow> list_all is_goto (fst (crawl_loop env page use_js max_pages (st, tr0)))"
proof (induction env page use_js max_pages "(st, tr0)" arbitrary: st tr0 rule: crawl_loop.induct)
  case (1 env page use_js max_pages st tr)
  show ?case
  proof (cases "queue st \<noteq> [] \<and> int (length (records st)) < max_pages")
    case False
    then have "crawl_loop env page use_js max_pages (st, tr) = (tr, Inr st)"
      by (subst crawl_loop.simps) auto
    then show ?thesis using 1(3) by simp
  next
    case True
    let ?url = "hd (queue st)"
    let ?st1 = "st\<lparr>queue := tl (queue st)\<rparr>"
    let ?tr1 = "if use_js then tr @ [Goto ?url] else tr"
    have tr1: "list_all is_goto ?tr1" using 1(3) by simp
    show ?thesis
    proof (cases "page ?url")
      case (ResolveRaised e)
      have "crawl_loop env page use_js max_pages (st, tr) =
          crawl_loop env page use_js max_pages (?st1, ?tr1)"
        by (subst crawl_loop.simps) (simp add: True ResolveRaised Let_def)
      with 1(1) [OF True refl refl refl ResolveRaised tr1]
      show ?thesis by simp
    next
      case (BodyRaised e)
      have "crawl_loop env page use_js max_pages (st, tr) = (?tr1, Inl e)"
        by (subst crawl_loop.simps) (simp add: True BodyRaised Let_def)
      then show ?thesis using tr1 by simp
    next
      case (Page links r)
      have "crawl_loop env page use_js max_pages (st, tr) =
          crawl_loop env page use_js max_pages
            ((foldl (\<lambda>s l. enqueue env l s) ?st1 links)\<lparr>records := records ?st1 @ [r]\<rparr>, ?tr1)"
        by (subst crawl_loop.simps) (simp add: True Page Let_def)
      with 1(2) [OF True refl refl refl Page tr1]
      show ?thesis by simp
    qed
  qed
qed

lemma count_gotos:
  "list_all is_goto xs \<Longrightarrow>
   count_list xs PwStop = 0 \<and> count_list xs CtxClose = 0 \<and> count_list xs BrowserClose = 0"
  by (induction xs) auto

lemma renderer_close_events:
  "fst (renderer_close oc) = [CtxClose, PwStop] \<or> fst (renderer_close oc) = [CtxClose, BrowserClose, PwStop]"
  by (simp add: renderer_close_def split: option.split)

text \<open>
  Claim C9: with the rendered strategy active, whatever the pages do and whatever the
  page budget is, the \<open>try\<close> statement around the crawl loop ends, and the events on the
  browser session are the page visits of the loop followed by one run of \<open>close\<close>:
  the context is closed once and Playwright is stopped once, as the last event, whether
  the loop ended because the queue was empty, because the page budget was reached, or by
  an exception raised inside it (the browser is closed once too, unless closing the
  context raised).  When \<open>close\<close> does not raise, the outcome of the loop, its state or
  its exception, is the outcome of the statement.
\<close>

theorem renderer_released_once:
  "fst (crawl_try env page oc True max_pages st) =
     fst (crawl_loop env page True max_pages (st, [])) @ fst (renderer_close oc) \<and>
   list_all is_goto (fst (crawl_loop env page True max_pages (st, []))) \<and>
   count_list (fst (crawl_try env page oc True max_pages st)) PwStop = 1 \<and>
   count_list (fst (crawl_try env page oc True max_pages st)) CtxClose = 1 \<and>
   count_list (fst (crawl_try env page oc True max_pages st)) BrowserClose =
     (if ctx_close_err oc = None then 1 else 0) \<and>
   last (fst (crawl_try env page oc True max_pages st)) = PwStop \<and>
   (snd (renderer_close oc) = None \<longrightarrow>
      snd (crawl_try env page oc True max_pages st) = snd (crawl_loop env page True max_pages (st, [])))"
proof -
  let ?loop = "crawl_loop env page True max_pages (st, [])"
  have t: "fst (crawl_try env page oc True max_pages st) = fst ?loop @ fst (renderer_close oc)"
    by (simp add: crawl_try_def Let_def)
  have g: "list_all is_goto (fst ?loop)" by (rule crawl_loop_gotos) simp
  then have c: "count_list (fst ?loop) PwStop = 0 \<and> count_list (fst ?loop) CtxClose = 0 \<and>
      count_list (fst ?loop) BrowserClose = 0"
    by (rule count_gotos)
  have b: "count_list (fst (renderer_close oc)) BrowserClose = (if ctx_close_err oc = None then 1 else 0)"
    by (simp add: renderer_close_def split: option.split)
  have r: "snd (renderer_close oc) = None \<longrightarrow>
      snd (crawl_try env page oc True max_pages st) = snd ?loop"
    by (simp add: crawl_try_def Let_def)
  from renderer_close_events [of oc] t g c b r show ?thesis
    by (auto simp: count_list_append)
qed

theorem renderer_released_once_witness:
  "crawl_try sample_env sample_outcome sample_close True 500 (sample_start ''https://www.focode.org/focode'') =
     ([Goto ''https://www.focode.org/focode'', Goto ''https://www.focode.org/focode/a'',
       Goto ''https://www.focode.org/focode/b'', CtxClose, BrowserClose, PwStop],
      Inl (OtherError ''Invalid IPv6 URL'')) \<and>
   fst (crawl_try sample_env sample_outcome sample_close True 1 (sample_start ''https://www.focode.org/focode'')) =
     [Goto ''https://www.focode.org/focode'', CtxClose, BrowserClose, PwStop] \<and>
   crawl_try sample_env sample_outcome sample_close True 500 (sample_start ''https://www.focode.org/focode/a'') =
     ([Goto ''https://www.focode.org/focode/a'', CtxClose, BrowserClose, PwStop],
      Inr \<lparr>queue = [], seen = {''https://www.focode.org/focode/a''}, records = []\<rparr>) \<and>
   count_list (fst (crawl_try sample_env sample_outcome sample_close True 500
      (sample_start ''https://www.focode.org/focode''))) PwStop = 1"
proof -
  have a: "crawl_try sample_env sample_outcome sample_close True 500 (sample_start ''https://www.focode.org/focode'') =
     ([Goto ''https://www.focode.org/focode'', Goto ''https://www.focode.org/focode/a'',
       Goto ''https://www.focode.org/focode/b'', CtxClose, BrowserClose, PwStop],
      Inl (OtherError ''Invalid IPv6 URL''))"
    by code_simp
  have b: "fst (crawl_try sample_env sample_outcome sample_close True 1 (sample_start ''https://www.focode.org/focode'')) =
     [Goto ''https://www.focode.org/focode'', CtxClose, BrowserClose, PwStop]"
    by code_simp
  have c: "crawl_try sample_env sample_outcome sample_close True 500 (sample_start ''https://www.focode.org/focode/a'') =
     ([Goto ''https://www.focode.org/focode/a'', CtxClose, BrowserClose, PwStop],
      Inr \<lparr>queue = [], seen = {''https://www.focode.org/focode/a''}, records = []\<rparr>)"
    by code_simp
  from renderer_released_once [of sample_env sample_outcome sample_close 500 "sample_start ''https://www.focode.org/focode''"]
  have "count_list (fst (crawl_try sample_env sample_outcome sample_close True 500
      (sample_start ''https://www.focode.org/focode''))) PwStop = 1"
    by blast
  with a b c show ?thesis by blast
qed

section \<open>One turn of the extraction loop, by element name\<close>

lemma lower_names:
  "py_lower ''img'' = ''img''" "py_lower ''p'' = ''p''" "py_lower ''ul'' = ''ul''" "py_lower ''ol'' = ''ol''"
  "py_lower ''blockquote'' = ''blockquote''" "py_lower ''pre'' = ''pre''"
  "py_lower ''h1'' = ''h1''" "py_lower ''h2'' = ''h2''" "py_lower ''h3'' = ''h3''"
  "py_lower ''h4'' = ''h4''" "py_lower ''h5'' = ''h5''"
  by (simp_all add: py_lower_def lower_char_def)

lemma visit_img: "tag_name el = ''img'' \<Longrightarrow> visit_el J base el acc = add_image J base el acc"
  by (simp add: visit_el_def lower_names)

lemma visit_h_gen:
  "py_lower (tag_name el) = n \<Longrightarrow> n \<noteq> ''img'' \<Longrightarrow> startswith n ''h'' \<Longrightarrow>
   visit_el J base el acc =
     (if normalize_ws (get_text '' '' True el) \<noteq> []
      then (fst acc @ [\<lparr>cb_type = ''heading'', cb_text = Some (normalize_ws (get_text '' '' True el)),
                cb_level = Some (int_of_digits [n ! 1]), cb_items = None, cb_src = None, cb_alt = None\<rparr>], snd acc)
      else acc)"
  by (simp add: visit_el_def new_block_def Let_def)

lemma heading_tag_facts:
  "k \<in> {1, 2, 3, 4, 5} \<Longrightarrow>
   py_lower (heading_tag k) = heading_tag k \<and> heading_tag k \<noteq> ''img'' \<and>
   startswith (heading_tag k) ''h'' \<and> int_of_digits [heading_tag k ! 1] = k"
  by (auto simp: heading_tag_def digit_char_def py_lower_def lower_char_def startswith_def
      int_of_digits_def digit_val_def)

lemma visit_heading:
  "tag_name el = heading_tag k \<Longrightarrow> k \<in> {1, 2, 3, 4, 5} \<Longrightarrow>
   visit_el J base el acc =
     (if normalize_ws (get_text '' '' True el) \<noteq> []
      then (fst acc @ [\<lparr>cb_type = ''heading'', cb_text = Some (normalize_ws (get_text '' '' True el)),
                cb_level = Some k, cb_items = None, cb_src = None, cb_alt = None\<rparr>], snd acc)
      else acc)"
  using visit_h_gen [of el "heading_tag k" J base acc] heading_tag_facts [of k] by simp

lemma visit_p:
  "tag_name el = ''p'' \<Longrightarrow>
   visit_el J base el acc =
     (if find_all_names [''img''] el \<noteq> [] \<and> normalize_ws (get_text '' '' True el) = []
      then foldl (\<lambda>a i. add_image J base i a) acc (find_all_names [''img''] el)
      else if normalize_ws (get_text '' '' True el) \<noteq> []
        then (fst acc @ [(new_block ''paragraph'')\<lparr>cb_text := Some (normalize_ws (get_text '' '' True el))\<rparr>], snd acc)
        else acc)"
  by (simp add: visit_el_def lower_names startswith_def Let_def)

lemma visit_list:
  "tag_name el = ''ul'' \<or> tag_name el = ''ol'' \<Longrightarrow>
   visit_el J base el acc =
     (let items = map (\<lambda>li. normalize_ws (get_text '' '' True li))
                          (filter (\<lambda>li. normalize_ws (get_text [] False li) \<noteq> [])
                             (find_children ''li'' el))
      in if items \<noteq> []
         then (fst acc @ [(new_block ''list'')\<lparr>cb_items := Some items\<rparr>], snd acc)
         else acc)"
  by (auto simp: visit_el_def lower_names startswith_def Let_def)

lemma visit_quote:
  "tag_name el = ''blockquote'' \<Longrightarrow>
   visit_el J base el acc =
     (if normalize_ws (get_text '' '' True el) \<noteq> []
      then (fst acc @ [(new_block ''quote'')\<lparr>cb_text := Some (normalize_ws (get_text '' '' True el))\<rparr>], snd acc)
      else acc)"
  by (simp add: visit_el_def lower_names startswith_def Let_def)

lemma visit_pre:
  "tag_name el = ''pre'' \<Longrightarrow>
   visit_el J base el acc =
     (if py_strip_chars is_nl (get_text [CHR 0x0A] True el) \<noteq> []
      then (fst acc @ [(new_block ''code'')\<lparr>cb_text := Some (py_strip_chars is_nl (get_text [CHR 0x0A] True el))\<rparr>], snd acc)
      else acc)"
  by (simp add: visit_el_def lower_names startswith_def Let_def)

lemma block_names_cases:
  "n \<in> set block_names \<Longrightarrow>
   n = ''img'' \<or> n = ''p'' \<or> (n = ''ul'' \<or> n = ''ol'') \<or> n = ''blockquote'' \<or> n = ''pre'' \<or>
   (\<exists>k \<in> {1, 2, 3, 4, 5}. n = heading_tag k)"
  by (auto simp: block_names_def heading_tag_def digit_char_def)

section \<open>Images and image blocks\<close>

lemma add_image_noop:
  "\<not> truthy (attr_get img ''src'') \<Longrightarrow> \<not> truthy (attr_get img ''data-src'') \<Longrightarrow>
   add_image J base img acc = acc"
  by (simp add: add_image_def)

lemma add_image_inv: "images_inv acc \<Longrightarrow> images_inv (add_image J base img acc)"
  by (simp add: add_image_def images_inv_def image_of_def new_block_def Let_def)

lemma foldl_add_image_inv:
  "images_inv acc \<Longrightarrow> images_inv (foldl (\<lambda>a i. add_image J base i a) acc imgs)"
  by (induction imgs arbitrary: acc) (simp_all add: add_image_inv)

lemma append_other_inv:
  "images_inv acc \<Longrightarrow> cb_type b \<noteq> ''image'' \<Longrightarrow> images_inv (fst acc @ [b], snd acc)"
  by (simp add: images_inv_def)

lemma visit_el_inv:
  assumes "images_inv acc" and "tag_name el \<in> set block_names"
  shows "images_inv (visit_el J base el acc)"
proof -
  from assms(2) consider "tag_name el = ''img''" | "tag_name el = ''p''"
    | "tag_name el = ''ul'' \<or> tag_name el = ''ol''" | "tag_name el = ''blockquote''"
    | "tag_name el = ''pre''" | k where "k \<in> {1, 2, 3, 4, 5}" "tag_name el = heading_tag k"
    using block_names_cases by blast
  then show ?thesis
  proof cases
    case 1
    then show ?thesis using assms(1) by (simp add: visit_img add_image_inv)
  next
    case 2
    then show ?thesis using assms(1)
      by (simp add: visit_p foldl_add_image_inv append_other_inv new_block_def)
  next
    case 3
    then show ?thesis using assms(1)
      by (simp add: visit_list append_other_inv new_block_def Let_def)
  next
    case 4
    then show ?thesis using assms(1)
      by (simp add: visit_quote append_other_inv new_block_def)
  next
    case 5
    then show ?thesis using assms(1)
      by (simp add: visit_pre append_other_inv new_block_def)
  next
    case 6
    then show ?thesis using assms(1)
      by (simp add: visit_heading append_other_inv)
  qed
qed

lemma foldl_visit_inv:
  "images_inv acc \<Longrightarrow> \<forall>el \<in> set els. tag_name el \<in> set block_names \<Longrightarrow>
   images_inv (foldl (\<lambda>acc el. visit_el J base el acc) acc els)"
  by (induction els arbitrary: acc) (simp_all add: visit_el_inv)

text \<open>
  Claim C10: for every container and base URL, the images returned by block extraction
  are, in order, the \<open>src\<close> and \<open>alt\<close> of the image blocks among the returned blocks
  (every image block has a \<open>src\<close>), and an \<open>img\<close> element with neither a \<open>src\<close> nor a
  \<open>data-src\<close> attribute adds nothing to either list.
\<close>

theorem images_match_image_blocks:
  "snd (extract_blocks urljoin container base_url) =
     map (\<lambda>b. \<lparr>img_src = the (cb_src b), img_alt = cb_alt b\<rparr>)
       (filter (\<lambda>b. cb_type b = ''image'') (fst (extract_blocks urljoin container base_url))) \<and>
   list_all (\<lambda>b. cb_type b = ''image'' \<longrightarrow> cb_src b \<noteq> None)
     (fst (extract_blocks urljoin container base_url)) \<and>
   (\<not> truthy (attr_get img ''src'') \<and> \<not> truthy (attr_get img ''data-src'') \<longrightarrow>
      add_image urljoin base_url img acc = acc)"
proof -
  have "images_inv ([], [])" by (simp add: images_inv_def)
  moreover have "\<forall>el \<in> set (find_all_names block_names container). tag_name el \<in> set block_names"
    by (simp add: find_all_names_def)
  ultimately have "images_inv (extract_blocks urljoin container base_url)"
    unfolding extract_blocks_def by (rule foldl_visit_inv)
  then show ?thesis
    using add_image_noop by (auto simp add: images_inv_def image_of_def)
qed

theorem images_match_image_blocks_witness:
  "snd (extract_blocks sample_urljoin sample_page ''https://www.focode.org/focode'') =
     [\<lparr>img_src = ''https://www.focode.org/a.png'', img_alt = Some ''A''\<rparr>,
      \<lparr>img_src = ''https://www.focode.org/a.png'', img_alt = Some ''A''\<rparr>] \<and>
   add_image sample_urljoin ''https://www.focode.org/focode''
     (Tag ''img'' None [(''alt'', ''no source'')] []) ([], []) = ([], [])"
proof -
  have b: "filter (\<lambda>b. cb_type b = ''image'')
       (fst (extract_blocks sample_urljoin sample_page ''https://www.focode.org/focode'')) =
     [\<lparr>cb_type = ''image'', cb_text = None, cb_level = None, cb_items = None,
        cb_src = Some ''https://www.focode.org/a.png'', cb_alt = Some ''A''\<rparr>,
      \<lparr>cb_type = ''image'', cb_text = None, cb_level = None, cb_items = None,
        cb_src = Some ''https://www.focode.org/a.png'', cb_alt = Some ''A''\<rparr>]"
    by code_simp
  have t: "\<not> truthy (attr_get (Tag ''img'' None [(''alt'', ''no source'')] []) ''src'') \<and>
           \<not> truthy (attr_get (Tag ''img'' None [(''alt'', ''no source'')] []) ''data-src'')"
    by (simp add: truthy_def)
  from images_match_image_blocks [of sample_urljoin sample_page "''https://www.focode.org/focode''"
      "Tag ''img'' None [(''alt'', ''no source'')] []" "([], [])"] t
  show ?thesis unfolding b by simp
qed

section \<open>Headings\<close>

lemma add_image_headings:
  "filter is_heading_block (fst (add_image J base img acc)) = filter is_heading_block (fst acc)"
  by (simp add: add_image_def is_heading_block_def new_block_def Let_def)

lemma foldl_add_image_headings:
  "filter is_heading_block (fst (foldl (\<lambda>a i. add_image J base i a) acc imgs)) =
   filter is_heading_block (fst acc)"
  by (induction imgs arbitrary: acc) (simp_all add: add_image_headings)

lemma heading_tag_vals:
  "heading_tag 1 = ''h1''" "heading_tag 2 = ''h2''" "heading_tag 3 = ''h3''"
  "heading_tag 4 = ''h4''" "heading_tag 5 = ''h5''"
  by (simp_all add: heading_tag_def digit_char_def)

lemma heading_blocks_at:
  assumes "is_tag el" and "tag_name el = heading_tag k" and "k \<in> {1, 2, 3, 4, 5}"
  shows "heading_blocks [1, 2, 3, 4, 5] el =
     (if normalize_ws (get_text '' '' True el) \<noteq> []
      then [\<lparr>cb_type = ''heading'', cb_text = Some (normalize_ws (get_text '' '' True el)),
                cb_level = Some k, cb_items = None, cb_src = None, cb_alt = None\<rparr>]
      else [])"
proof -
  from assms(3) consider "k = 1" | "k = 2" | "k = 3" | "k = 4" | "k = 5" by auto
  then show ?thesis
  proof cases
    case 1 with assms(1,2) show ?thesis by (simp add: heading_blocks_def heading_tag_vals)
  next
    case 2 with assms(1,2) show ?thesis by (simp add: heading_blocks_def heading_tag_vals)
  next
    case 3 with assms(1,2) show ?thesis by (simp add: heading_blocks_def heading_tag_vals)
  next
    case 4 with assms(1,2) show ?thesis by (simp add: heading_blocks_def heading_tag_vals)
  next
    case 5 with assms(1,2) show ?thesis by (simp add: heading_blocks_def heading_tag_vals)
  qed
qed

lemma heading_blocks_other:
  "\<forall>k \<in> {1, 2, 3, 4, 5}. tag_name el \<noteq> heading_tag k \<Longrightarrow> heading_blocks [1, 2, 3, 4, 5] el = []"
  by (simp add: heading_blocks_def)

lemma not_heading_names:
  "k \<in> {1, 2, 3, 4, 5} \<Longrightarrow> heading_tag k \<noteq> ''img'' \<and> heading_tag k \<noteq> ''p'' \<and> heading_tag k \<noteq> ''ul'' \<and>
     heading_tag k \<noteq> ''ol'' \<and> heading_tag k \<noteq> ''blockquote'' \<and> heading_tag k \<noteq> ''pre''"
  by (simp add: heading_tag_def)

lemma visit_el_headings:
  assumes "is_tag el" and "tag_name el \<in> set block_names"
  shows "filter is_heading_block (fst (visit_el J base el acc)) =
         filter is_heading_block (fst acc) @ heading_blocks [1, 2, 3, 4, 5] el"
proof -
  from assms(2) consider "tag_name el = ''img''" | "tag_name el = ''p''"
    | "tag_name el = ''ul'' \<or> tag_name el = ''ol''" | "tag_name el = ''blockquote''"
    | "tag_name el = ''pre''" | k where "k \<in> {1, 2, 3, 4, 5}" "tag_name el = heading_tag k"
    using block_names_cases by blast
  then show ?thesis
  proof cases
    case 1
    then have "heading_blocks [1, 2, 3, 4, 5] el = []"
      using not_heading_names by (intro heading_blocks_other) metis
    with 1 show ?thesis by (simp add: visit_img add_image_headings)
  next
    case 2
    then have "heading_blocks [1, 2, 3, 4, 5] el = []"
      using not_heading_names by (intro heading_blocks_other) metis
    with 2 show ?thesis
      by (simp add: visit_p foldl_add_image_headings is_heading_block_def new_block_def)
  next
    case 3
    then have "heading_blocks [1, 2, 3, 4, 5] el = []"
      using not_heading_names by (intro heading_blocks_other) metis
    with 3 show ?thesis
      by (simp add: visit_list is_heading_block_def new_block_def Let_def)
  next
    case 4
    then have "heading_blocks [1, 2, 3, 4, 5] el = []"
      using not_heading_names by (intro heading_blocks_other) metis
    with 4 show ?thesis
      by (simp add: visit_quote is_heading_block_def new_block_def)
  next
    case 5
    then have "heading_blocks [1, 2, 3, 4, 5] el = []"
      using not_heading_names by (intro heading_blocks_other) metis
    with 5 show ?thesis
      by (simp add: visit_pre is_heading_block_def new_block_def)
  next
    case 6
    then show ?thesis using assms(1)
      by (simp add: visit_heading heading_blocks_at is_heading_block_def)
  qed
qed

lemma foldl_visit_headings:
  "\<forall>el \<in> set els. is_tag el \<and> tag_name el \<in> set block_names \<Longrightarrow>
   filter is_heading_block (fst (foldl (\<lambda>acc el. visit_el J base el acc) acc els)) =
   filter is_heading_block (fst acc) @ concat (map (heading_blocks [1, 2, 3, 4, 5]) els)"
  by (induction els arbitrary: acc) (simp_all add: visit_el_headings)

lemma concat_map_filter:
  "\<forall>x \<in> set xs. \<not> P x \<longrightarrow> f x = [] \<Longrightarrow> concat (map f (filter P xs)) = concat (map f xs)"
  by (induction xs) auto

lemma heading_tag_in_block_names: "k \<in> {1, 2, 3, 4, 5} \<Longrightarrow> heading_tag k \<in> set block_names"
  by (auto simp: heading_tag_def digit_char_def block_names_def)

lemma heading_blocks_outside:
  assumes "\<not> (is_tag x \<and> tag_name x \<in> set block_names)"
  shows "heading_blocks [1, 2, 3, 4, 5] x = []"
proof (cases "is_tag x")
  case False
  then show ?thesis by (simp add: heading_blocks_def)
next
  case True
  with assms have "tag_name x \<notin> set block_names" by simp
  then have "\<forall>k \<in> {1, 2, 3, 4, 5}. tag_name x \<noteq> heading_tag k"
    using heading_tag_in_block_names by metis
  then show ?thesis by (rule heading_blocks_other)
qed

text \<open>
  The claim C3 as it is written covers the tags \<open>h1\<close> to \<open>h6\<close>.  Block extraction
  looks for \<open>h1\<close> to \<open>h5\<close>: an \<open>h6\<close> element with non-empty text gives no block.
\<close>

theorem heading_h6_counterexample:
  "normalize_ws (get_text '' '' True (Tag ''h6'' None [] [Text ''Notes''])) = ''Notes'' \<and>
   extract_blocks sample_urljoin (Tag ''article'' None [] [Tag ''h6'' None [] [Text ''Notes'']]) ''https://www.focode.org/focode'' = ([], [])"
  by code_simp

text \<open>
  Claim C3, amended: the heading blocks that block extraction returns are, in document
  order, one block for every element \<open>h1\<close> to \<open>h5\<close> below the container whose text is
  non-empty after whitespace normalization, with the numeral of the tag name as level
  and the normalized text as text; a heading with empty normalized text gives no block.
\<close>

theorem headings_h1_to_h5:
  "filter (\<lambda>b. cb_type b = ''heading'') (fst (extract_blocks urljoin container base_url)) =
     concat (map (heading_blocks [1, 2, 3, 4, 5]) (descendants container))"
proof -
  let ?els = "find_all_names block_names container"
  have "\<forall>el \<in> set ?els. is_tag el \<and> tag_name el \<in> set block_names"
    by (simp add: find_all_names_def)
  then have "filter is_heading_block (fst (extract_blocks urljoin container base_url)) =
      concat (map (heading_blocks [1, 2, 3, 4, 5]) ?els)"
    unfolding extract_blocks_def by (simp add: foldl_visit_headings)
  also have "\<dots> = concat (map (heading_blocks [1, 2, 3, 4, 5]) (descendants container))"
    unfolding find_all_names_def
    by (rule concat_map_filter) (simp add: heading_blocks_outside)
  finally show ?thesis by (simp add: is_heading_block_def [abs_def])
qed

theorem headings_h1_to_h5_witness:
  "filter (\<lambda>b. cb_type b = ''heading'')
     (fst (extract_blocks sample_urljoin sample_page ''https://www.focode.org/focode'')) =
   [\<lparr>cb_type = ''heading'', cb_text = Some ''Notes on crawling'', cb_level = Some 2,
      cb_items = None, cb_src = None, cb_alt = None\<rparr>]"
proof -
  have "concat (map (heading_blocks [1, 2, 3, 4, 5]) (descendants sample_page)) =
   [\<lparr>cb_type = ''heading'', cb_text = Some ''Notes on crawling'', cb_level = Some 2,
      cb_items = None, cb_src = None, cb_alt = None\<rparr>]"
    by code_simp
  with headings_h1_to_h5 [of sample_urljoin sample_page "''https://www.focode.org/focode''"]
  show ?thesis by simp
qed

section \<open>The fixture page\<close>

lemma decompose_where_concat:
  "decompose_where P (Tag n c a cs) =
     Tag n c a (concat (map (\<lambda>x. if is_tag x \<and> P x then [] else [decompose_where P x]) cs))"
proof -
  have "map (decompose_where P) (filter (\<lambda>x. \<not> (is_tag x \<and> P x)) cs) =
      concat (map (\<lambda>x. if is_tag x \<and> P x then [] else [decompose_where P x]) cs)"
    by (induction cs) auto
  then show ?thesis by simp
qed

lemma names_pass_fold:
  "foldl (\<lambda>c sel. decompose_where (\<lambda>t. tag_name t = sel) c) (Tag n c a cs) sels =
     Tag n c a (concat (map (names_pass sels) cs))"
proof (induction sels arbitrary: cs)
  case Nil
  have "concat (map (\<lambda>x. [x]) cs) = cs" by (induction cs) auto
  then show ?case by (simp add: names_pass.simps(1) [abs_def])
next
  case (Cons sel sels)
  let ?Q = "\<lambda>t. tag_name t = sel"
  let ?f = "\<lambda>c sel. decompose_where (\<lambda>t. tag_name t = sel) c"
  let ?cs = "map (decompose_where ?Q) (filter (\<lambda>x. \<not> (is_tag x \<and> ?Q x)) cs)"
  have eq: "concat (map (names_pass sels) ?cs) = concat (map (names_pass (sel # sels)) cs)"
    by (induction cs) auto
  have "foldl ?f (Tag n c a cs) (sel # sels) = foldl ?f (Tag n c a ?cs) sels" by simp
  also have "\<dots> = Tag n c a (concat (map (names_pass sels) ?cs))" by (rule Cons)
  finally show ?case unfolding eq .
qed

lemma strip_unwanted_children:
  "strip_unwanted (Tag n c a cs) = Tag n c a (concat (map strip_child cs))"
proof -
  let ?g = "\<lambda>y. if is_tag y \<and> noisy y then [] else [decompose_where noisy y]"
  have "concat (map ?g (concat (map (names_pass unwanted_tags) cs))) = concat (map strip_child cs)"
    by (induction cs) (simp_all add: strip_child_def)
  then show ?thesis
    unfolding strip_unwanted_def unwanted_tags_def [symmetric] names_pass_fold decompose_where_concat
    by simp
qed

lemma names_pass_keeps:
  "n \<notin> set sels \<Longrightarrow> \<exists>cs'. names_pass sels (Tag n c a cs) = [Tag n c a cs']"
  by (induction sels arbitrary: cs) auto

lemma noisy_social_share: "noisy (Tag n (Some (AList [''social-share''])) a cs)"
  by (simp add: noise_kw_search_def py_lower_def lower_char_def startswith_def Let_def)

lemma strip_child_social_share:
  "strip_child (Tag ''div'' (Some (AList [''social-share''])) a cs) = []"
proof -
  have "''div'' \<notin> set unwanted_tags" by (simp add: unwanted_tags_def)
  then obtain cs' where "names_pass unwanted_tags (Tag ''div'' (Some (AList [''social-share''])) a cs) =
      [Tag ''div'' (Some (AList [''social-share''])) a cs']"
    using names_pass_keeps by blast
  then show ?thesis by (simp add: strip_child_def noisy_social_share del: noisy.simps)
qed

lemma strip_child_fixture:
  "strip_child fixture_h1 = [fixture_h1]" "strip_child (fixture_p t) = [fixture_p t]"
  "strip_child fixture_ul = [fixture_ul]"
  by (simp_all add: strip_child_def unwanted_tags_def fixture_h1_def fixture_p_def fixture_ul_def
      noise_kw_search_def py_lower_def)

lemma strip_unwanted_fixture:
  assumes "pre @ post = [fixture_h1, fixture_p p1, fixture_p p2, fixture_ul]"
  shows "strip_unwanted (Tag n c a (pre @ [fixture_share attrs sub] @ post)) =
         Tag n c a [fixture_h1, fixture_p p1, fixture_p p2, fixture_ul]"
proof -
  have "concat (map strip_child (pre @ [fixture_share attrs sub] @ post)) =
        concat (map strip_child (pre @ post))"
    by (simp add: fixture_share_def strip_child_social_share)
  also have "\<dots> = [fixture_h1, fixture_p p1, fixture_p p2, fixture_ul]"
    unfolding assms by (simp add: strip_child_fixture)
  finally show ?thesis by (simp only: strip_unwanted_children)
qed

lemma strip_unwanted_fixture_clean:
  "strip_unwanted (Tag n c a [fixture_h1, fixture_p p1, fixture_p p2, fixture_ul]) =
         Tag n c a [fixture_h1, fixture_p p1, fixture_p p2, fixture_ul]"
  by (simp add: strip_unwanted_children strip_child_fixture)

lemma normalize_ws_Nil: "normalize_ws [] = []"
  by (simp add: normalize_ws_def py_strip_def)

lemma fixture_texts:
  "normalize_ws (get_text '' '' True fixture_h1) = ''Title''"
  "map (\<lambda>li. normalize_ws (get_text '' '' True li))
     (filter (\<lambda>li. normalize_ws (get_text [] False li) \<noteq> []) (find_children ''li'' fixture_ul)) = [''A'', ''B'']"
  by code_simp+

lemma fixture_p_text:
  "normalize_ws (py_strip t) \<noteq> [] \<Longrightarrow>
   normalize_ws (get_text '' '' True (fixture_p t)) = normalize_ws (py_strip t)"
proof -
  assume "normalize_ws (py_strip t) \<noteq> []"
  then have "py_strip t \<noteq> []" using normalize_ws_Nil by metis
  then show ?thesis by (simp add: get_text_def all_strings_def fixture_p_def)
qed

lemma fixture_find_all:
  "find_all_names block_names (Tag n c a [fixture_h1, fixture_p p1, fixture_p p2, fixture_ul]) =
     [fixture_h1, fixture_p p1, fixture_p p2, fixture_ul]"
  by (simp add: find_all_names_def block_names_def fixture_h1_def fixture_p_def fixture_ul_def)

lemma fixture_p_no_img: "find_all_names [''img''] (fixture_p t) = []"
  by (simp add: find_all_names_def fixture_p_def)

lemma fixture_names:
  "tag_name fixture_h1 = heading_tag 1" "tag_name (fixture_p t) = ''p''" "tag_name fixture_ul = ''ul''"
  by (simp_all add: fixture_h1_def fixture_p_def fixture_ul_def heading_tag_def digit_char_def)

lemma extract_fixture:
  assumes "normalize_ws (py_strip p1) \<noteq> []" and "normalize_ws (py_strip p2) \<noteq> []"
  shows "extract_blocks J (Tag n c a [fixture_h1, fixture_p p1, fixture_p p2, fixture_ul]) base =
    ([(new_block ''heading'')\<lparr>cb_level := Some 1, cb_text := Some ''Title''\<rparr>,
      (new_block ''paragraph'')\<lparr>cb_text := Some (normalize_ws (py_strip p1))\<rparr>,
      (new_block ''paragraph'')\<lparr>cb_text := Some (normalize_ws (py_strip p2))\<rparr>,
      (new_block ''list'')\<lparr>cb_items := Some [''A'', ''B'']\<rparr>], [])"
  unfolding extract_blocks_def fixture_find_all
  using assms
  by (simp add: visit_heading [OF fixture_names(1)] visit_p [OF fixture_names(2)]
      visit_list [of fixture_ul, OF disjI1, OF fixture_names(3)]
      fixture_texts fixture_p_text fixture_p_no_img new_block_def)

text \<open>
  Claim C4: a container holds \<open><h1>Title</h1>\<close>, two paragraphs with non-empty text, a
  list \<open><ul><li>A</li><li>B</li></ul>\<close>, in this order, and somewhere among them a
  \<open><div class="social-share">\<close> with any attributes and any subtree.  Noise stripping
  followed by block extraction gives exactly the heading of level 1 with text
  \<open>Title\<close>, the two paragraphs and the list of \<open>A\<close> and \<open>B\<close>; the result is the one
  of the same container without the \<open>div\<close>, so that nothing in its subtree adds a block.
\<close>

theorem fixture_blocks:
  assumes "normalize_ws (py_strip p1) \<noteq> []" and "normalize_ws (py_strip p2) \<noteq> []"
    and "pre @ post = [fixture_h1, fixture_p p1, fixture_p p2, fixture_ul]"
  shows "fst (extract_blocks urljoin
           (strip_unwanted (Tag n c a (pre @ [fixture_share attrs sub] @ post))) base_url) =
     [\<lparr>cb_type = ''heading'', cb_text = Some ''Title'', cb_level = Some 1,
        cb_items = None, cb_src = None, cb_alt = None\<rparr>,
      \<lparr>cb_type = ''paragraph'', cb_text = Some (normalize_ws (py_strip p1)), cb_level = None,
        cb_items = None, cb_src = None, cb_alt = None\<rparr>,
      \<lparr>cb_type = ''paragraph'', cb_text = Some (normalize_ws (py_strip p2)), cb_level = None,
        cb_items = None, cb_src = None, cb_alt = None\<rparr>,
      \<lparr>cb_type = ''list'', cb_text = None, cb_level = None,
        cb_items = Some [''A'', ''B''], cb_src = None, cb_alt = None\<rparr>] \<and>
    extract_blocks urljoin
      (strip_unwanted (Tag n c a (pre @ [fixture_share attrs sub] @ post))) base_url =
    extract_blocks urljoin (strip_unwanted (Tag n c a (pre @ post))) base_url"
  unfolding strip_unwanted_fixture [OF assms(3)] assms(3) strip_unwanted_fixture_clean
    extract_fixture [OF assms(1,2)]
  by (simp add: new_block_def)

theorem fixture_blocks_witness:
  "fst (extract_blocks sample_urljoin
     (strip_unwanted (Tag ''article'' None []
        ([fixture_h1, fixture_p ''First.''] @
         [fixture_share [] [Tag ''p'' None [] [Text ''Share this''],
                            Tag ''img'' None [(''src'', ''https://www.focode.org/s.png'')] []]] @
         [fixture_p '' Second  one. '', fixture_ul])))
     ''https://www.focode.org/focode'') =
   [\<lparr>cb_type = ''heading'', cb_text = Some ''Title'', cb_level = Some 1,
      cb_items = None, cb_src = None, cb_alt = None\<rparr>,
    \<lparr>cb_type = ''paragraph'', cb_text = Some ''First.'', cb_level = None,
      cb_items = None, cb_src = None, cb_alt = None\<rparr>,
    \<lparr>cb_type = ''paragraph'', cb_text = Some ''Second one.'', cb_level = None,
      cb_items = None, cb_src = None, cb_alt = None\<rparr>,
    \<lparr>cb_type = ''list'', cb_text = None, cb_level = None,
      cb_items = Some [''A'', ''B''], cb_src = None, cb_alt = None\<rparr>]"
proof -
  have 1: "normalize_ws (py_strip ''First.'') \<noteq> []" by code_simp
  have 2: "normalize_ws (py_strip '' Second  one. '') \<noteq> []" by code_simp
  have 3: "[fixture_h1, fixture_p ''First.''] @ [fixture_p '' Second  one. '', fixture_ul] =
     [fixture_h1, fixture_p ''First.'', fixture_p '' Second  one. '', fixture_ul]" by simp
  have 4: "normalize_ws (py_strip ''First.'') = ''First.''" by code_simp
  have 5: "normalize_ws (py_strip '' Second  one. '') = ''Second one.''" by code_simp
  from fixture_blocks [OF 1 2 3, of sample_urljoin "''article''" None "[]" "[]"
      "[Tag ''p'' None [] [Text ''Share this''],
        Tag ''img'' None [(''src'', ''https://www.focode.org/s.png'')] []]" "''https://www.focode.org/focode''"]
  have "fst (extract_blocks sample_urljoin
     (strip_unwanted (Tag ''article'' None []
        ([fixture_h1, fixture_p ''First.''] @
         [fixture_share [] [Tag ''p'' None [] [Text ''Share this''],
                            Tag ''img'' None [(''src'', ''https://www.focode.org/s.png'')] []]] @
         [fixture_p '' Second  one. '', fixture_ul])))
     ''https://www.focode.org/focode'') =
   [\<lparr>cb_type = ''heading'', cb_text = Some ''Title'', cb_level = Some 1,
      cb_items = None, cb_src = None, cb_alt = None\<rparr>,
    \<lparr>cb_type = ''paragraph'', cb_text = Some (normalize_ws (py_strip ''First.'')), cb_level = None,
      cb_items = None, cb_src = None, cb_alt = None\<rparr>,
    \<lparr>cb_type = ''paragraph'', cb_text = Some (normalize_ws (py_strip '' Second  one. '')), cb_level = None,
      cb_items = None, cb_src = None, cb_alt = None\<rparr>,
    \<lparr>cb_type = ''list'', cb_text = None, cb_level = None,
      cb_items = Some [''A'', ''B''], cb_src = None, cb_alt = None\<rparr>]"
    by (rule conjunct1)
  then show ?thesis unfolding 4 5 .
qed

end
